theory Spec2Isabelle
  imports Complex_Main "HOL-Library.Word" "HOL-Library.Log_Nat" "HOL-Library.AList"
begin

unbundle bit_operations_syntax

section \<open>BitIO: the bit cursor of \<open>Bitstream\<close>\<close>

text \<open>
  The embedding follows \<open>libraries/metavoxels/src/Bitstream.cpp\<close>.  A \<open>Bitstream\<close> holds a
  reference to a \<open>QDataStream\<close>, the accumulator \<open>_byte\<close> (a \<open>quint8\<close>) and the bit cursor
  \<open>_position\<close>.  The underlying stream is modelled as a queue of bytes: \<open>_underlying << _byte\<close>
  appends at the end, \<open>_underlying >> _byte\<close> removes the first byte.
\<close>

type_synonym quint8 = "8 word"

definition BITS_IN_BYTE :: nat where
  "BITS_IN_BYTE = 8"

definition LAST_BIT_POSITION :: nat where
  "LAST_BIT_POSITION = BITS_IN_BYTE - 1"

record Bitstream =
  underlying :: "quint8 list"
  byte :: quint8
  position :: nat

text \<open>The constructor: \<open>_byte(0), _position(0)\<close> over the given underlying stream.\<close>

definition Bitstream_new :: "quint8 list \<Rightarrow> Bitstream" where
  "Bitstream_new u = \<lparr>underlying = u, byte = 0, position = 0\<rparr>"

definition reset :: "Bitstream \<Rightarrow> Bitstream" where
  "reset s = s\<lparr>byte := 0, position := 0\<rparr>"

definition flush :: "Bitstream \<Rightarrow> Bitstream" where
  "flush s = (if position s \<noteq> 0 then reset (s\<lparr>underlying := underlying s @ [byte s]\<rparr>) else s)"

text \<open>
  \<open>_underlying >> _byte\<close>.  \<open>QDataStream\<close> stores zero in the target when the device has no
  byte left (and only sets its status), so the read never blocks or throws.
\<close>

definition fetch :: "Bitstream \<Rightarrow> Bitstream" where
  "fetch s = (case underlying s of
                [] \<Rightarrow> s\<lparr>byte := 0\<rparr>
              | b # bs \<Rightarrow> s\<lparr>underlying := bs, byte := b\<rparr>)"

text \<open>
  \<open>Bitstream::write(data, bits, offset)\<close>.  The caller's buffer is the byte list \<open>source\<close> with
  the pointer at index \<open>i\<close>.  One call of \<open>write_loop\<close> is one test of the \<open>while\<close> condition
  followed by one pass through the body.  The C expression is evaluated on \<open>int\<close> and stored
  in a \<open>quint8\<close>; every operation in it is bitwise, so it is the same expression on
  \<open>8 word\<close>.  A shift count is negative (undefined behaviour) when \<open>offset\<close> or \<open>_position\<close>
  exceeds 8, and the buffer is read out of bounds when \<open>i\<close> is past its end: both are \<open>None\<close>.
  A count \<open>bits \<le> 0\<close> does nothing in the source; the count is a \<open>nat\<close> here.
\<close>

function write_loop :: "Bitstream \<Rightarrow> quint8 list \<Rightarrow> nat \<Rightarrow> nat \<Rightarrow> nat \<Rightarrow> Bitstream option" where
  "write_loop s source i bits offset =
     (if bits = 0 then Some s
      else if BITS_IN_BYTE < offset \<or> BITS_IN_BYTE < position s then None
      else if length source \<le> i then None
      else
        let bitsToWrite = min (BITS_IN_BYTE - position s) (min (BITS_IN_BYTE - offset) bits);
            s1 = s\<lparr>byte := byte s OR
                       push_bit (position s)
                         (drop_bit offset (source ! i) AND (push_bit bitsToWrite 1 - 1)),
                   position := position s + bitsToWrite\<rparr>;
            s2 = (if position s1 = BITS_IN_BYTE then flush s1 else s1);
            offset1 = offset + bitsToWrite
        in if offset1 = BITS_IN_BYTE
           then write_loop s2 source (i + 1) (bits - bitsToWrite) 0
           else write_loop s2 source i (bits - bitsToWrite) offset1)"
  by pat_completeness auto
termination
proof (relation "measure (\<lambda>(s, source, i, bits, offset).
        3 * bits + (if offset = 8 then 1 else 0) + (if position s = 8 then 1 else 0))",
       goal_cases)
  case 1
  show ?case by simp
next
  case (2 s source i bits offset bitsToWrite s1 s2 offset1)
  note h = 2 [unfolded BITS_IN_BYTE_def]
  have b: "bitsToWrite = min (8 - position s) (min (8 - offset) bits)"
    using h(4) .
  have p2: "position s2 = (if position s + bitsToWrite = 8 then 0 else position s + bitsToWrite)"
    unfolding h(6) h(5) by (simp add: flush_def reset_def)
  have le: "bitsToWrite \<le> bits" using b by simp
  have p: "position s \<le> 8" "offset \<le> 8" using h(2) by simp_all
  show ?case
  proof (cases "position s = 8 \<or> offset = 8")
    case True
    then have "bitsToWrite = 0" using b by auto
    then show ?thesis using True p2 h(1) h(7) h(8) by auto
  next
    case False
    then have "0 < bitsToWrite" using b p h(1) by simp
    moreover have "position s2 \<noteq> 8" using p2 by simp
    ultimately show ?thesis using False le by simp
  qed
next
  case (3 s source i bits offset bitsToWrite s1 s2 offset1)
  note h = 3 [unfolded BITS_IN_BYTE_def]
  have b: "bitsToWrite = min (8 - position s) (min (8 - offset) bits)"
    using h(4) .
  have p2: "position s2 = (if position s + bitsToWrite = 8 then 0 else position s + bitsToWrite)"
    unfolding h(6) h(5) by (simp add: flush_def reset_def)
  have le: "bitsToWrite \<le> bits" using b by simp
  have p: "position s \<le> 8" "offset \<le> 8" using h(2) by simp_all
  have o: "offset \<noteq> 8" using h(7) h(8) b by auto
  have o1: "offset1 \<noteq> 8" using h(8) .
  show ?case
  proof (cases "position s = 8")
    case True
    then have "bitsToWrite = 0" using b by auto
    then show ?thesis using True p2 o o1 h(1) by auto
  next
    case False
    then have "0 < bitsToWrite" using b p o h(1) by simp
    moreover have "position s2 \<noteq> 8" using p2 by simp
    ultimately show ?thesis using False le o o1 by simp
  qed
qed

declare write_loop.simps [simp del]

definition Bitstream_write :: "Bitstream \<Rightarrow> quint8 list \<Rightarrow> nat \<Rightarrow> nat \<Rightarrow> Bitstream option" where
  "Bitstream_write s data bits offset = write_loop s data 0 bits offset"

lemma and_LAST_BIT_POSITION: "(n::nat) AND LAST_BIT_POSITION = n mod 8"
proof -
  have "(7::nat) = mask 3" by (simp add: mask_eq_exp_minus_1)
  then have "n AND (7::nat) = take_bit 3 n" by (simp add: take_bit_eq_mask)
  then show ?thesis by (simp add: take_bit_eq_mod LAST_BIT_POSITION_def BITS_IN_BYTE_def)
qed

lemma position_fetch [simp]: "position (fetch s) = position s"
  by (simp add: fetch_def split: list.split)

text \<open>
  \<open>Bitstream::read(data, bits, offset)\<close>: the destination buffer is updated in place, so the
  loop returns it with the stream.
\<close>

function read_loop ::
  "Bitstream \<Rightarrow> quint8 list \<Rightarrow> nat \<Rightarrow> nat \<Rightarrow> nat \<Rightarrow> (Bitstream \<times> quint8 list) option" where
  "read_loop s dest i bits offset =
     (if bits = 0 then Some (s, dest)
      else if BITS_IN_BYTE < offset \<or> BITS_IN_BYTE < position s then None
      else if length dest \<le> i then None
      else
        let s0 = (if position s = 0 then fetch s else s);
            bitsToRead = min (BITS_IN_BYTE - position s0) (min (BITS_IN_BYTE - offset) bits);
            mask = push_bit offset (push_bit bitsToRead 1 - 1);
            dest1 = dest[i := (dest ! i AND NOT mask) OR
                               (push_bit offset (drop_bit (position s0) (byte s0)) AND mask)];
            s1 = s0\<lparr>position := (position s0 + bitsToRead) AND LAST_BIT_POSITION\<rparr>;
            offset1 = offset + bitsToRead
        in if offset1 = BITS_IN_BYTE
           then read_loop s1 dest1 (i + 1) (bits - bitsToRead) 0
           else read_loop s1 dest1 i (bits - bitsToRead) offset1)"
  by pat_completeness auto
termination
proof (relation "measure (\<lambda>(s, dest, i, bits, offset).
        3 * bits + (if offset = 8 then 1 else 0) + (if position s = 8 then 1 else 0))",
       goal_cases)
  case 1
  show ?case by simp
next
  case (2 s dest i bits offset s0 bitsToRead mask dest1 s1 offset1)
  note h = 2 [unfolded BITS_IN_BYTE_def]
  have p0: "position s0 = position s" unfolding h(4) by simp
  have b: "bitsToRead = min (8 - position s) (min (8 - offset) bits)"
    using h(5) p0 by simp
  have p1: "position s1 = (position s + bitsToRead) mod 8"
    unfolding h(8) using p0 by (simp add: and_LAST_BIT_POSITION)
  have le: "bitsToRead \<le> bits" using b by simp
  have p: "position s \<le> 8" "offset \<le> 8" using h(2) by simp_all
  have n8: "position s1 \<noteq> 8" using p1 by (simp add: mod_less_divisor [THEN less_imp_neq])
  show ?case
  proof (cases "position s = 8 \<or> offset = 8")
    case True
    then have "bitsToRead = 0" using b by auto
    then show ?thesis using True n8 h(1) h(9) h(10) by auto
  next
    case False
    then have "0 < bitsToRead" using b p h(1) by simp
    then show ?thesis using False le n8 by simp
  qed
next
  case (3 s dest i bits offset s0 bitsToRead mask dest1 s1 offset1)
  note h = 3 [unfolded BITS_IN_BYTE_def]
  have p0: "position s0 = position s" unfolding h(4) by simp
  have b: "bitsToRead = min (8 - position s) (min (8 - offset) bits)"
    using h(5) p0 by simp
  have p1: "position s1 = (position s + bitsToRead) mod 8"
    unfolding h(8) using p0 by (simp add: and_LAST_BIT_POSITION)
  have le: "bitsToRead \<le> bits" using b by simp
  have p: "position s \<le> 8" "offset \<le> 8" using h(2) by simp_all
  have n8: "position s1 \<noteq> 8" using p1 by (simp add: mod_less_divisor [THEN less_imp_neq])
  have o: "offset \<noteq> 8" using h(9) h(10) b by auto
  have o1: "offset1 \<noteq> 8" using h(10) .
  show ?case
  proof (cases "position s = 8")
    case True
    then have "bitsToRead = 0" using b by auto
    then show ?thesis using True n8 o o1 h(1) by auto
  next
    case False
    then have "0 < bitsToRead" using b p o h(1) by simp
    then show ?thesis using False le n8 o o1 by simp
  qed
qed

declare read_loop.simps [simp del]

definition Bitstream_read :: "Bitstream \<Rightarrow> quint8 list \<Rightarrow> nat \<Rightarrow> nat \<Rightarrow> (Bitstream \<times> quint8 list) option" where
  "Bitstream_read s data bits offset = read_loop s data 0 bits offset"

text \<open>\<open>Bitstream::operator<<(bool)\<close> and \<open>Bitstream::operator>>(bool&)\<close>.\<close>

definition write_bool :: "Bitstream \<Rightarrow> bool \<Rightarrow> Bitstream" where
  "write_bool s v =
     (let s1 = (if v then s\<lparr>byte := byte s OR push_bit (position s) 1\<rparr> else s);
          s2 = s1\<lparr>position := position s1 + 1\<rparr>
      in if position s2 = BITS_IN_BYTE then flush s2 else s2)"

definition read_bool :: "Bitstream \<Rightarrow> bool \<times> Bitstream" where
  "read_bool s =
     (let s0 = (if position s = 0 then fetch s else s);
          v = (byte s0 AND push_bit (position s0) 1 \<noteq> 0)
      in (v, s0\<lparr>position := (position s0 + 1) AND LAST_BIT_POSITION\<rparr>))"

section \<open>The bit sequence behind a cursor\<close>

text \<open>
  Proof-side abstractions.  \<open>byte_bits\<close> lists the bits of a byte from the least significant
  one, \<open>buf_bit buf k\<close> is bit \<open>k\<close> of a buffer (bit \<open>k mod 8\<close> of byte \<open>k div 8\<close>), \<open>written\<close>
  is every bit a writer has accepted so far (the emitted bytes, then the filled part of the
  accumulator) and \<open>unread\<close> is every bit a reader has still to deliver (the rest of the
  accumulator, then the bytes not yet fetched).  \<open>write_step\<close> and \<open>read_step\<close> name one pass
  through the loop bodies of \<open>write_loop\<close> and \<open>read_loop\<close>.
\<close>

definition byte_bits :: "quint8 \<Rightarrow> bool list" where
  "byte_bits b = map (bit b) [0..<8]"

definition buf_bit :: "quint8 list \<Rightarrow> nat \<Rightarrow> bool" where
  "buf_bit buf k = bit (buf ! (k div 8)) (k mod 8)"

definition buffer_bits :: "quint8 list \<Rightarrow> bool list" where
  "buffer_bits buf = map (buf_bit buf) [0..<8 * length buf]"

definition written :: "Bitstream \<Rightarrow> bool list" where
  "written s = buffer_bits (underlying s) @ take (position s) (byte_bits (byte s))"

definition writer_inv :: "Bitstream \<Rightarrow> bool" where
  "writer_inv s \<longleftrightarrow> position s < 8 \<and> drop_bit (position s) (byte s) = 0"

definition write_step :: "Bitstream \<Rightarrow> quint8 \<Rightarrow> nat \<Rightarrow> nat \<Rightarrow> Bitstream" where
  "write_step s b off n =
     (let s1 = s\<lparr>byte := byte s OR push_bit (position s) (drop_bit off b AND (push_bit n 1 - 1)),
                   position := position s + n\<rparr>
      in if position s1 = 8 then flush s1 else s1)"

lemma length_byte_bits [simp]: "length (byte_bits b) = 8"
  by (simp add: byte_bits_def)

lemma nth_byte_bits [simp]: "k < 8 \<Longrightarrow> byte_bits b ! k = bit b k"
  by (simp add: byte_bits_def)

lemma length_buffer_bits [simp]: "length (buffer_bits buf) = 8 * length buf"
  by (simp add: buffer_bits_def)

lemma nth_buffer_bits [simp]: "k < 8 * length buf \<Longrightarrow> buffer_bits buf ! k = buf_bit buf k"
  by (simp add: buffer_bits_def)

lemma buffer_bits_snoc: "buffer_bits (u @ [b]) = buffer_bits u @ byte_bits b"
proof (rule nth_equalityI)
  show "length (buffer_bits (u @ [b])) = length (buffer_bits u @ byte_bits b)" by simp
next
  fix k assume "k < length (buffer_bits (u @ [b]))"
  then have k: "k < 8 * length u + 8" by simp
  show "buffer_bits (u @ [b]) ! k = (buffer_bits u @ byte_bits b) ! k"
  proof (cases "k < 8 * length u")
    case True
    then have "k div 8 < length u" by (simp add: less_mult_imp_div_less mult.commute)
    then show ?thesis using True k by (simp add: nth_append buf_bit_def)
  next
    case False
    then have d: "k div 8 = length u" using k by simp
    have m: "k mod 8 = k - 8 * length u" using d by (metis minus_mult_div_eq_mod)
    show ?thesis using False k d m by (simp add: nth_append buf_bit_def)
  qed
qed

lemma mask_word8: "push_bit n (1::quint8) - 1 = mask n"
  by (simp add: mask_eq_exp_minus_1 push_bit_of_1)

lemma bit_write_byte:
  assumes "drop_bit p (w::quint8) = 0" "k < 8"
  shows "bit (w OR push_bit p (drop_bit off b AND mask n)) k
         = (if k < p then bit w k else k - p < n \<and> bit b (off + (k - p)))"
proof -
  have z: "\<not> bit w j" if "p \<le> j" for j
  proof -
    have "bit (drop_bit p w) (j - p) = bit w j" using that by (simp add: bit_drop_bit_eq)
    then show ?thesis using assms(1) by simp
  qed
  show ?thesis using assms(2) z[of k]
    by (auto simp add: bit_simps dest: bit_imp_le_length)
qed

lemma written_flush: "position s \<le> 8 \<Longrightarrow> written (flush s) = (if position s = 0 then buffer_bits (underlying s) else buffer_bits (underlying s) @ byte_bits (byte s))"
  by (simp add: written_def flush_def reset_def buffer_bits_snoc)

lemma write_step_props:
  assumes inv: "writer_inv s" and n: "position s + n \<le> 8" "off + n \<le> 8"
  shows "writer_inv (write_step s b off n)"
    and "written (write_step s b off n) = written s @ map (bit b) [off..<off + n]"
    and "position (write_step s b off n) = (position s + n) mod 8"
    and "length (underlying (write_step s b off n)) = length (underlying s) + (position s + n) div 8"
proof -
  define w where "w = byte s OR push_bit (position s) (drop_bit off b AND mask n)"
  define s1 where "s1 = s\<lparr>byte := w, position := position s + n\<rparr>"
  have ws: "write_step s b off n = (if position s + n = 8 then flush s1 else s1)"
    unfolding write_step_def mask_word8 s1_def w_def Let_def by simp
  have z: "drop_bit (position s) (byte s) = 0" using inv by (simp add: writer_inv_def)
  have bw: "bit w k = (if k < position s then bit (byte s) k
                       else k - position s < n \<and> bit b (off + (k - position s)))" if "k < 8" for k
    unfolding w_def using bit_write_byte [OF z that] .
  have tk: "take (position s + n) (byte_bits w) = take (position s) (byte_bits (byte s)) @ map (bit b) [off..<off + n]"
  proof (rule nth_equalityI)
    show "length (take (position s + n) (byte_bits w)) =
          length (take (position s) (byte_bits (byte s)) @ map (bit b) [off..<off + n])"
      using n by simp
  next
    fix k assume "k < length (take (position s + n) (byte_bits w))"
    then have k: "k < position s + n" "k < 8" using n by simp_all
    show "take (position s + n) (byte_bits w) ! k =
          (take (position s) (byte_bits (byte s)) @ map (bit b) [off..<off + n]) ! k"
      using k n bw [OF k(2)] by (auto simp add: nth_append)
  qed
  have w1: "written s1 = written s @ map (bit b) [off..<off + n]"
    by (simp add: written_def s1_def tk)
  have hi: "drop_bit (position s + n) w = 0"
  proof (rule bit_eqI)
    fix k
    show "bit (drop_bit (position s + n) w) k = bit (0::quint8) k"
    proof (cases "position s + n + k < 8")
      case True
      then show ?thesis using bw [OF True] by (simp add: bit_drop_bit_eq add.commute)
    next
      case False
      then show ?thesis by (auto simp add: bit_drop_bit_eq dest: bit_imp_le_length)
    qed
  qed
  show "writer_inv (write_step s b off n)"
    using n hi by (simp add: ws writer_inv_def flush_def reset_def s1_def)
  show "written (write_step s b off n) = written s @ map (bit b) [off..<off + n]"
  proof (cases "position s + n = 8")
    case True
    have "written (flush s1) = buffer_bits (underlying s1) @ byte_bits (byte s1)"
      using True by (simp add: written_flush s1_def)
    also have "\<dots> = written s1" using True by (simp add: written_def s1_def)
    finally show ?thesis using True w1 by (simp add: ws)
  next
    case False
    then show ?thesis using w1 by (simp add: ws)
  qed
  show "position (write_step s b off n) = (position s + n) mod 8"
    using n by (simp add: ws flush_def reset_def s1_def)
  show "length (underlying (write_step s b off n)) = length (underlying s) + (position s + n) div 8"
    using n by (simp add: ws flush_def reset_def s1_def)
qed


lemma write_loop_unfold:
  assumes "0 < bits" "offset < 8" "position s < 8" "i < length source"
  shows "write_loop s source i bits offset =
         (let n = min (8 - position s) (min (8 - offset) bits)
          in write_loop (write_step s (source ! i) offset n) source
               (if offset + n = 8 then i + 1 else i) (bits - n)
               (if offset + n = 8 then 0 else offset + n))"
  using assms by (subst write_loop.simps) (simp add: write_step_def BITS_IN_BYTE_def Let_def)

lemma map_bit_buf_bit:
  assumes "off + n \<le> 8"
  shows "map (bit (source ! i)) [off..<off + n] = map (buf_bit source) [8 * i + off..<8 * i + off + n]"
proof (rule nth_equalityI)
  show "length (map (bit (source ! i)) [off..<off + n]) =
        length (map (buf_bit source) [8 * i + off..<8 * i + off + n])" by simp
next
  fix k assume "k < length (map (bit (source ! i)) [off..<off + n])"
  then have k: "k < n" by simp
  then have lt: "off + k < 8" using assms by simp
  have d: "(8 * i + off + k) div 8 = i" using lt by (simp add: add.assoc)
  have m: "(8 * i + off + k) mod 8 = off + k" using lt by (simp add: add.assoc)
  show "map (bit (source ! i)) [off..<off + n] ! k =
        map (buf_bit source) [8 * i + off..<8 * i + off + n] ! k"
    using k d m by (simp add: buf_bit_def)
qed

lemma write_loop_correct:
  assumes "writer_inv s" "offset < 8" "8 * i + offset + bits \<le> 8 * length source"
  shows "\<exists>s'. write_loop s source i bits offset = Some s' \<and> writer_inv s' \<and>
           written s' = written s @ map (buf_bit source) [8 * i + offset..<8 * i + offset + bits] \<and>
           position s' = (position s + bits) mod 8 \<and>
           length (underlying s') = length (underlying s) + (position s + bits) div 8"
  using assms
proof (induction bits arbitrary: s i offset rule: less_induct)
  case (less bits)
  have p: "position s < 8" using less.prems(1) by (simp add: writer_inv_def)
  show ?case
  proof (cases "bits = 0")
    case True
    then show ?thesis using less.prems p by (simp add: write_loop.simps)
  next
    case False
    define n where "n = min (8 - position s) (min (8 - offset) bits)"
    define s2 where "s2 = write_step s (source ! i) offset n"
    define i' where "i' = (if offset + n = 8 then i + 1 else i)"
    define off' where "off' = (if offset + n = 8 then 0 else offset + n)"
    have n: "0 < n" "n \<le> bits" "position s + n \<le> 8" "offset + n \<le> 8"
      using False p less.prems(2) by (simp_all add: n_def)
    have i: "i < length source" using less.prems(2,3) False by simp
    have unf: "write_loop s source i bits offset = write_loop s2 source i' (bits - n) off'"
      using write_loop_unfold [of bits offset s i source] False less.prems(2) p i
      by (simp add: n_def s2_def i'_def off'_def Let_def)
    have idx: "8 * i' + off' = 8 * i + offset + n" by (simp add: i'_def off'_def)
    have off': "off' < 8" using n(4) by (simp add: off'_def)
    note st = write_step_props [OF less.prems(1) n(3) n(4), of "source ! i", folded s2_def]
    have "bits - n < bits" using n(1) False by simp
    moreover have "8 * i' + off' + (bits - n) \<le> 8 * length source"
      using idx n(2) less.prems(3) by simp
    ultimately obtain s' where s':
      "write_loop s2 source i' (bits - n) off' = Some s'" "writer_inv s'"
      "written s' = written s2 @ map (buf_bit source) [8 * i' + off'..<8 * i' + off' + (bits - n)]"
      "position s' = (position s2 + (bits - n)) mod 8"
      "length (underlying s') = length (underlying s2) + (position s2 + (bits - n)) div 8"
      using less.IH [OF _ st(1) off'] by blast
    have w: "written s' = written s @ map (buf_bit source) [8 * i + offset..<8 * i + offset + bits]"
    proof -
      have e: "8 * i + offset + n + (bits - n) = 8 * i + offset + bits" using n(2) by simp
      have "[8 * i + offset..<8 * i + offset + n + (bits - n)] =
            [8 * i + offset..<8 * i + offset + n] @ [8 * i + offset + n..<8 * i + offset + n + (bits - n)]"
        by (rule upt_add_eq_append) simp
      then have "[8 * i + offset..<8 * i + offset + bits] =
            [8 * i + offset..<8 * i + offset + n] @ [8 * i + offset + n..<8 * i + offset + bits]"
        unfolding e .
      then show ?thesis
        using s'(3) st(2) map_bit_buf_bit [OF n(4), of source i] by (simp add: idx e)
    qed
    have ps: "position s' = (position s + bits) mod 8"
    proof -
      have "(position s2 + (bits - n)) mod 8 = (position s + n + (bits - n)) mod 8"
        unfolding st(3) by (rule mod_add_left_eq)
      moreover have "position s + n + (bits - n) = position s + bits" using n(2) by simp
      ultimately show ?thesis using s'(4) by simp
    qed
    have len: "length (underlying s') = length (underlying s) + (position s + bits) div 8"
    proof (cases "position s + n = 8")
      case True
      have "(position s + bits) = 8 + (bits - n)" using True n(2) by simp
      then show ?thesis using s'(5) st(3,4) True by simp
    next
      case F: False
      then have "position s + n < 8" using n(3) by simp
      then show ?thesis using s'(5) st(3,4) n(2) by simp
    qed
    show ?thesis using unf s'(1,2) w ps len by simp
  qed
qed


definition unread :: "Bitstream \<Rightarrow> bool list" where
  "unread s = (if position s = 0 then [] else drop (position s) (byte_bits (byte s))) @
              buffer_bits (underlying s)"

definition read_step :: "Bitstream \<Rightarrow> quint8 \<Rightarrow> nat \<Rightarrow> nat \<Rightarrow> Bitstream \<times> quint8" where
  "read_step s d off n =
     (let s0 = (if position s = 0 then fetch s else s);
          m = push_bit off (push_bit n 1 - 1)
      in (s0\<lparr>position := (position s0 + n) AND LAST_BIT_POSITION\<rparr>,
          (d AND NOT m) OR (push_bit off (drop_bit (position s0) (byte s0)) AND m)))"

lemma position_fetch_if: "position (if c then fetch s else s) = position s"
  by simp

lemma read_loop_unfold:
  assumes "0 < bits" "offset < 8" "position s < 8" "i < length dest"
  shows "read_loop s dest i bits offset =
         (let n = min (8 - position s) (min (8 - offset) bits);
              r = read_step s (dest ! i) offset n
          in if offset + n = 8
             then read_loop (fst r) (dest[i := snd r]) (i + 1) (bits - n) 0
             else read_loop (fst r) (dest[i := snd r]) i (bits - n) (offset + n))"
proof -
  have g1: "(bits = 0) = False" using assms by simp
  have g2: "(8 < offset \<or> 8 < position s) = False"
    using assms by simp
  have g3: "(length dest \<le> i) = False" using assms by simp
  show ?thesis
    by (subst read_loop.simps)
       (simp only: g1 g2 g3 if_False BITS_IN_BYTE_def Let_def read_step_def fst_conv snd_conv
                   position_fetch_if)
qed

lemma buffer_bits_Cons: "buffer_bits (b # u) = byte_bits b @ buffer_bits u"
proof (rule nth_equalityI)
  show "length (buffer_bits (b # u)) = length (byte_bits b @ buffer_bits u)" by simp
next
  fix k assume "k < length (buffer_bits (b # u))"
  then have k: "k < 8 + 8 * length u" by simp
  show "buffer_bits (b # u) ! k = (byte_bits b @ buffer_bits u) ! k"
  proof (cases "k < 8")
    case True
    then show ?thesis using k by (simp add: nth_append buf_bit_def)
  next
    case False
    then obtain j where j: "k = 8 + j" using le_Suc_ex by (metis not_less)
    have d: "(8 + j) div 8 = Suc (j div 8)" by simp
    have m: "(8 + j) mod 8 = j mod 8" by simp
    show ?thesis using k unfolding j by (simp add: nth_append buf_bit_def d m)
  qed
qed

lemma bit_read_byte:
  assumes "k < 8" "off + n \<le> 8"
  shows "bit ((d AND NOT (push_bit off (mask n))) OR (push_bit off (drop_bit p (b::quint8)) AND push_bit off (mask n))) k
         = (if off \<le> k \<and> k < off + n then bit b (p + (k - off)) else bit (d::quint8) k)"
  using assms by (auto simp add: bit_simps dest: bit_imp_le_length)



lemma read_step_props:
  assumes p: "position s < 8" and n: "0 < n" "position s + n \<le> 8" "off + n \<le> 8"
      and av: "n \<le> length (unread s)"
  shows "position (fst (read_step s d off n)) = (position s + n) mod 8"
    and "unread (fst (read_step s d off n)) = drop n (unread s)"
    and "\<And>k. k < 8 \<Longrightarrow> bit (snd (read_step s d off n)) k =
           (if off \<le> k \<and> k < off + n then unread s ! (k - off) else bit d k)"
proof -
  define s0 where "s0 = (if position s = 0 then fetch s else s)"
  have rs: "read_step s d off n =
        (s0\<lparr>position := (position s + n) mod 8\<rparr>,
         (d AND NOT (push_bit off (mask n))) OR
         (push_bit off (drop_bit (position s) (byte s0)) AND push_bit off (mask n)))"
    unfolding read_step_def mask_word8 s0_def Let_def
    by (simp add: and_LAST_BIT_POSITION)
  have un: "unread s = drop (position s) (byte_bits (byte s0)) @ buffer_bits (underlying s0)"
  proof (cases "position s = 0")
    case True
    have "underlying s \<noteq> []"
    proof
      assume "underlying s = []"
      then have "unread s = []" using True by (simp add: unread_def buffer_bits_def)
      then show False using av n(1) by simp
    qed
    then obtain b u where u: "underlying s = b # u" by (cases "underlying s") auto
    then show ?thesis using True by (simp add: unread_def s0_def fetch_def buffer_bits_Cons)
  next
    case False
    then show ?thesis by (simp add: unread_def s0_def)
  qed
  show "position (fst (read_step s d off n)) = (position s + n) mod 8" by (simp add: rs)
  show "unread (fst (read_step s d off n)) = drop n (unread s)"
  proof (cases "position s + n = 8")
    case True
    have "unread (fst (read_step s d off n)) = buffer_bits (underlying s0)"
      using True by (simp add: rs unread_def)
    also have "\<dots> = drop n (unread s)"
      unfolding un using True by simp
    finally show ?thesis .
  next
    case False
    then have lt: "position s + n < 8" using n(2) by simp
    have "unread (fst (read_step s d off n)) =
          drop (position s + n) (byte_bits (byte s0)) @ buffer_bits (underlying s0)"
      using lt n(1) by (simp add: rs unread_def)
    also have "\<dots> = drop n (unread s)"
      unfolding un using lt by (simp add: add.commute)
    finally show ?thesis .
  qed
  show "bit (snd (read_step s d off n)) k =
           (if off \<le> k \<and> k < off + n then unread s ! (k - off) else bit d k)" if k: "k < 8" for k
  proof -
    have "unread s ! (k - off) = bit (byte s0) (position s + (k - off))" if "off \<le> k" "k < off + n"
    proof -
      have "k - off < 8 - position s" using that n(2) by simp
      then show ?thesis by (simp add: un nth_append)
    qed
    then show ?thesis using bit_read_byte [OF k n(3)] by (simp add: rs)
  qed
qed


lemma buf_bit_update:
  "j < length dest \<Longrightarrow>
   buf_bit (dest[j := d]) k = (if k div 8 = j then bit d (k mod 8) else buf_bit dest k)"
  by (simp add: buf_bit_def nth_list_update)

lemma div_mod_in_byte:
  assumes "8 * i \<le> (k::nat)" "k < 8 * i + 8"
  shows "k div 8 = i" "k mod 8 = k - 8 * i"
proof -
  obtain j where j: "k = 8 * i + j" using assms(1) le_Suc_ex by blast
  then have "j < 8" using assms(2) by simp
  then show "k div 8 = i" "k mod 8 = k - 8 * i" unfolding j by simp_all
qed

lemma read_loop_correct:
  assumes "position s < 8" "offset < 8" "8 * i + offset + bits \<le> 8 * length dest"
          "bits \<le> length (unread s)"
  shows "\<exists>s' dest'. read_loop s dest i bits offset = Some (s', dest') \<and>
           position s' = (position s + bits) mod 8 \<and>
           unread s' = drop bits (unread s) \<and>
           length dest' = length dest \<and>
           (\<forall>k. buf_bit dest' k =
                 (if 8 * i + offset \<le> k \<and> k < 8 * i + offset + bits
                  then unread s ! (k - (8 * i + offset)) else buf_bit dest k))"
  using assms
proof (induction bits arbitrary: s dest i offset rule: less_induct)
  case (less bits)
  note p = less.prems(1)
  show ?case
  proof (cases "bits = 0")
    case True
    have "read_loop s dest i 0 offset = Some (s, dest)" by (subst read_loop.simps) simp
    then show ?thesis using True p by auto
  next
    case False
    define n where "n = min (8 - position s) (min (8 - offset) bits)"
    define s1 where "s1 = fst (read_step s (dest ! i) offset n)"
    define d' where "d' = snd (read_step s (dest ! i) offset n)"
    define i' where "i' = (if offset + n = 8 then i + 1 else i)"
    define off' where "off' = (if offset + n = 8 then 0 else offset + n)"
    have n: "0 < n" "n \<le> bits" "position s + n \<le> 8" "offset + n \<le> 8"
      using False p less.prems(2) by (simp_all add: n_def)
    have i: "i < length dest" using less.prems(2,3) False by simp
    have "0 < bits" using False by simp
    note read_loop_unfold [OF this less.prems(2) p i, unfolded Let_def, folded n_def,
        folded s1_def d'_def]
    then have unf: "read_loop s dest i bits offset = read_loop s1 (dest[i := d']) i' (bits - n) off'"
      by (simp add: i'_def off'_def)
    have idx: "8 * i' + off' = 8 * i + offset + n" by (simp add: i'_def off'_def)
    have off': "off' < 8" using n(4) by (simp add: off'_def)
    have av: "n \<le> length (unread s)" using n(2) less.prems(4) by simp
    note st = read_step_props [OF p n(1) n(3) n(4) av, where d = "dest ! i", folded s1_def d'_def]
    have p1: "position s1 < 8" using st(1) by simp
    have lt: "bits - n < bits" using n(1) False by simp
    have l1: "8 * i' + off' + (bits - n) \<le> 8 * length (dest[i := d'])"
      using idx n(2) less.prems(3) by simp
    have l2: "bits - n \<le> length (unread s1)"
      using st(2) less.prems(4) by simp
    from less.IH [OF lt p1 off' l1 l2] obtain s' dest' where s':
      "read_loop s1 (dest[i := d']) i' (bits - n) off' = Some (s', dest')"
      "position s' = (position s1 + (bits - n)) mod 8"
      "unread s' = drop (bits - n) (unread s1)"
      "length dest' = length (dest[i := d'])"
      "\<And>k. buf_bit dest' k =
                 (if 8 * i' + off' \<le> k \<and> k < 8 * i' + off' + (bits - n)
                  then unread s1 ! (k - (8 * i' + off')) else buf_bit (dest[i := d']) k)"
      by blast
    have e: "8 * i + offset + n + (bits - n) = 8 * i + offset + bits" using n(2) by simp
    have ps: "position s' = (position s + bits) mod 8"
    proof -
      have "(position s1 + (bits - n)) mod 8 = (position s + n + (bits - n)) mod 8"
        unfolding st(1) by (rule mod_add_left_eq)
      moreover have "position s + n + (bits - n) = position s + bits" using n(2) by simp
      ultimately show ?thesis using s'(2) by simp
    qed
    have un: "unread s' = drop bits (unread s)"
      using s'(3) st(2) n(2) by simp
    have bits': "buf_bit dest' k =
                 (if 8 * i + offset \<le> k \<and> k < 8 * i + offset + bits
                  then unread s ! (k - (8 * i + offset)) else buf_bit dest k)" for k
    proof -
      consider (a) "k < 8 * i + offset \<or> 8 * i + offset + bits \<le> k"
        | (b) "8 * i + offset \<le> k" "k < 8 * i + offset + n"
        | (c) "8 * i + offset + n \<le> k" "k < 8 * i + offset + bits"
        by linarith
      then show ?thesis
      proof cases
        case a
        then have 1: "buf_bit dest' k = buf_bit (dest[i := d']) k"
          using s'(5) [of k] n(2) by (auto simp add: idx e)
        have 2: "buf_bit (dest[i := d']) k = buf_bit dest k"
        proof (cases "k div 8 = i")
          case True
          then have k: "k = 8 * i + k mod 8" by auto
          have m: "k mod 8 < 8" by simp
          have "\<not> (offset \<le> k mod 8 \<and> k mod 8 < offset + n)"
            using a n(2) k by linarith
          then have "bit d' (k mod 8) = bit (dest ! i) (k mod 8)" using st(3) [OF m] by auto
          then show ?thesis using True i by (simp add: buf_bit_update) (simp add: buf_bit_def)
        next
          case False
          then show ?thesis using i by (simp add: buf_bit_update)
        qed
        show ?thesis using a 1 2 by auto
      next
        case b
        have dm: "k div 8 = i" "k mod 8 = k - 8 * i"
          using div_mod_in_byte [of i k] b n(4) by simp_all
        have m: "k mod 8 < 8" by simp
        have "buf_bit dest' k = buf_bit (dest[i := d']) k"
          using s'(5) [of k] b by (simp add: idx)
        also have "\<dots> = bit d' (k mod 8)" using dm i by (simp add: buf_bit_update)
        also have "\<dots> = unread s ! (k mod 8 - offset)"
        proof -
          have "offset \<le> k mod 8 \<and> k mod 8 < offset + n" using b dm(2) by linarith
          then show ?thesis using st(3) [OF m] by simp
        qed
        also have "k mod 8 - offset = k - (8 * i + offset)" using dm by simp
        finally show ?thesis using b n(2) by simp
      next
        case c
        have "buf_bit dest' k = unread s1 ! (k - (8 * i + offset + n))"
          using s'(5) [of k] c by (simp add: idx e)
        also have "\<dots> = unread s ! (n + (k - (8 * i + offset + n)))"
          unfolding st(2) using av by simp
        also have "n + (k - (8 * i + offset + n)) = k - (8 * i + offset)" using c by simp
        finally show ?thesis using c by simp
      qed
    qed
    show ?thesis
    proof (intro exI conjI allI)
      show "read_loop s dest i bits offset = Some (s', dest')" using unf s'(1) by simp
      show "position s' = (position s + bits) mod 8" by (rule ps)
      show "unread s' = drop bits (unread s)" by (rule un)
      show "length dest' = length dest" using s'(4) by simp
      show "buf_bit dest' k =
                 (if 8 * i + offset \<le> k \<and> k < 8 * i + offset + bits
                  then unread s ! (k - (8 * i + offset)) else buf_bit dest k)" for k
        by (rule bits')
    qed
  qed
qed






lemma unread_new: "unread (Bitstream_new u) = buffer_bits u"
  by (simp add: unread_def Bitstream_new_def)

lemma position_new: "position (Bitstream_new u) = 0"
  by (simp add: Bitstream_new_def)

lemma writer_inv_new: "writer_inv (Bitstream_new u)"
  by (simp add: writer_inv_def Bitstream_new_def)

lemma written_new: "written (Bitstream_new u) = buffer_bits u"
  by (simp add: written_def Bitstream_new_def)

lemma byte_bits_pad:
  assumes "drop_bit p (w::quint8) = 0" "p \<le> 8"
  shows "byte_bits w = take p (byte_bits w) @ replicate (8 - p) False"
proof (rule nth_equalityI)
  show "length (byte_bits w) = length (take p (byte_bits w) @ replicate (8 - p) False)"
    using assms(2) by simp
next
  fix k assume "k < length (byte_bits w)"
  then have k: "k < 8" by simp
  have z: "\<not> bit w k" if "p \<le> k"
  proof -
    have "bit (drop_bit p w) (k - p) = bit w k" using that by (simp add: bit_drop_bit_eq)
    then show ?thesis using assms(1) by simp
  qed
  show "byte_bits w ! k = (take p (byte_bits w) @ replicate (8 - p) False) ! k"
    using k z assms(2) by (auto simp add: nth_append)
qed

lemma flushed_bits:
  assumes "writer_inv s"
  shows "buffer_bits (underlying (flush s)) = written s @ replicate ((8 - position s) mod 8) False"
proof (cases "position s = 0")
  case True
  then show ?thesis by (simp add: flush_def written_def)
next
  case False
  have p: "position s < 8" "drop_bit (position s) (byte s) = 0"
    using assms by (simp_all add: writer_inv_def)
  have "byte_bits (byte s) = take (position s) (byte_bits (byte s)) @ replicate (8 - position s) False"
    using byte_bits_pad [OF p(2)] p(1) by simp
  then show ?thesis using False p(1)
    by (simp add: flush_def reset_def written_def buffer_bits_snoc)
qed


text \<open>
  The nb of the accumulator below the cursor: what a writer has accepted and not yet
  emitted, what a reader has consumed of the byte it fetched last.
\<close>

definition pending :: "Bitstream \<Rightarrow> bool list" where
  "pending s = take (position s) (byte_bits (byte s))"

text \<open>
  A reader over the bytes \<open>u\<close>: what it has not fetched is a suffix of \<open>u\<close>, and in the middle
  of a byte its accumulator is the byte fetched last.
\<close>

definition fetched :: "quint8 list \<Rightarrow> Bitstream \<Rightarrow> bool" where
  "fetched u s \<longleftrightarrow>
     (\<exists>c. u = c @ underlying s \<and> (position s = 0 \<or> (c \<noteq> [] \<and> last c = byte s)))"

lemma buffer_bits_append: "buffer_bits (a @ b) = buffer_bits a @ buffer_bits b"
  by (induction a) (simp_all add: buffer_bits_Cons, simp add: buffer_bits_def)

lemma fetched_new: "fetched u (Bitstream_new u)"
  by (simp add: fetched_def Bitstream_new_def)

lemma read_step_fetched:
  assumes f: "fetched u s" and n: "0 < n" "n \<le> length (unread s)"
  shows "fetched u (fst (read_step s d off n))"
proof (cases "position s = 0")
  case True
  then have "unread s = buffer_bits (underlying s)" by (simp add: unread_def)
  then have "underlying s \<noteq> []" using n by (auto simp add: buffer_bits_def)
  then obtain b bs where b: "underlying s = b # bs" by (cases "underlying s") auto
  from f obtain c where c: "u = c @ underlying s" by (auto simp add: fetched_def)
  have "u = (c @ [b]) @ bs" using c b by simp
  then show ?thesis
    unfolding fetched_def
    by (intro exI [of _ "c @ [b]"]) (simp add: read_step_def Let_def True fetch_def b)
next
  case False
  from f False obtain c where "u = c @ underlying s" "c \<noteq> []" "last c = byte s"
    by (auto simp add: fetched_def)
  then show ?thesis
    unfolding fetched_def
    by (intro exI [of _ c]) (simp add: read_step_def Let_def False)
qed

lemma read_loop_fetched:
  assumes "fetched u s" "position s < 8" "offset < 8" "nb \<le> length (unread s)"
          "read_loop s dest i nb offset = Some (s', dest')"
  shows "fetched u s'"
  using assms
proof (induction nb arbitrary: s dest i offset rule: less_induct)
  case (less nb)
  note p = less.prems(2)
  show ?case
  proof (cases "nb = 0")
    case True
    have "read_loop s dest i 0 offset = Some (s, dest)" by (subst read_loop.simps) simp
    then show ?thesis using True less.prems(1,5) by simp
  next
    case False
    have i: "i < length dest"
    proof (rule ccontr)
      assume "\<not> i < length dest"
      then have "read_loop s dest i nb offset = None"
        using False by (subst read_loop.simps) (simp add: BITS_IN_BYTE_def)
      then show False using less.prems(5) by simp
    qed
    define n where "n = min (8 - position s) (min (8 - offset) nb)"
    define s1 where "s1 = fst (read_step s (dest ! i) offset n)"
    define d' where "d' = snd (read_step s (dest ! i) offset n)"
    define i' where "i' = (if offset + n = 8 then i + 1 else i)"
    define off' where "off' = (if offset + n = 8 then 0 else offset + n)"
    have n: "0 < n" "n \<le> nb" "position s + n \<le> 8" "offset + n \<le> 8"
      using False p less.prems(3) by (simp_all add: n_def)
    have "0 < nb" using False by simp
    note read_loop_unfold [OF this less.prems(3) p i, unfolded Let_def, folded n_def,
        folded s1_def d'_def]
    then have unf: "read_loop s dest i nb offset = read_loop s1 (dest[i := d']) i' (nb - n) off'"
      by (simp add: i'_def off'_def)
    have off': "off' < 8" using n(4) by (simp add: off'_def)
    have av: "n \<le> length (unread s)" using n(2) less.prems(4) by simp
    note st = read_step_props [OF p n(1) n(3) n(4) av, where d = "dest ! i", folded s1_def d'_def]
    have f1: "fetched u s1" unfolding s1_def by (rule read_step_fetched [OF less.prems(1) n(1) av])
    have p1: "position s1 < 8" using st(1) by simp
    have lt: "nb - n < nb" using n(1) False by simp
    have l2: "nb - n \<le> length (unread s1)" using st(2) less.prems(4) by simp
    have r: "read_loop s1 (dest[i := d']) i' (nb - n) off' = Some (s', dest')"
      using less.prems(5) unf by simp
    show ?thesis by (rule less.IH [OF lt f1 p1 off' l2 r])
  qed
qed

lemma writer_pending:
  assumes "position w < 8"
  shows "pending w = drop (8 * (length (written w) div 8)) (written w)"
proof -
  have l: "length (written w) = 8 * length (underlying w) + position w"
    using assms by (simp add: written_def)
  have "length (written w) div 8 = length (underlying w)"
    unfolding l using assms by simp
  then show ?thesis by (simp add: written_def pending_def)
qed

lemma reader_pending:
  assumes f: "fetched u r" and p: "position r = m mod 8"
      and un: "unread r = drop m (buffer_bits u)" and m: "m \<le> 8 * length u"
  shows "pending r = drop (8 * (m div 8)) (take m (buffer_bits u))"
proof (cases "position r = 0")
  case True
  then have "8 * (m div 8) = m" using p by presburger
  then show ?thesis using True by (simp add: pending_def)
next
  case False
  from f False obtain c where c: "u = c @ underlying r" "c \<noteq> []" "last c = byte r"
    by (auto simp add: fetched_def)
  have pr: "position r < 8" using p by simp
  have mm: "m = 8 * (m div 8) + position r" using p by presburger
  have "length (unread r) = (8 - position r) + 8 * length (underlying r)"
    using False pr by (simp add: unread_def)
  moreover have "length (unread r) = 8 * length u - m" by (simp add: un)
  moreover have "length u = length c + length (underlying r)" using c(1) by (metis length_append)
  ultimately have "8 * length c = 8 * (m div 8) + 8" using m mm pr by linarith
  then have lc: "length c = m div 8 + 1" by simp
  have cc: "c = butlast c @ [byte r]" using c(2,3) by (metis append_butlast_last_id)
  have lb: "length (buffer_bits (butlast c)) = 8 * (m div 8)" using lc by simp
  have B: "buffer_bits u = buffer_bits (butlast c) @ (byte_bits (byte r) @ buffer_bits (underlying r))"
    by (subst c(1), subst cc) (simp add: buffer_bits_append buffer_bits_Cons)
  have "take m (buffer_bits u) = buffer_bits (butlast c) @ take (position r) (byte_bits (byte r))"
  proof -
    have gen: "take m (X @ Y @ Z) = X @ take q Y"
      if "length X = a" "length Y = 8" "a \<le> m" "m - a = q" "q < 8"
      for X Y Z :: "bool list" and a q
      using that by auto
    have "m - 8 * (m div 8) = position r" using mm by linarith
    moreover have "8 * (m div 8) \<le> m" by simp
    ultimately show ?thesis unfolding B using pr lb by (intro gen) simp_all
  qed
  then show ?thesis using lb unfolding pending_def by (simp only: append_eq_conv_conj drop_append) simp
qed

lemma matched_pair:
  assumes off: "offset < 8"
      and src: "offset + nBits \<le> 8 * length src"
      and dst: "offset + nBits \<le> 8 * length dst"
      and pre: "m \<le> 8 * length pre"
  shows "\<exists>w1 w2 r1 p1 r2 dst'.
           Bitstream_write (Bitstream_new []) pre m 0 = Some w1 \<and>
           Bitstream_write w1 src nBits offset = Some w2 \<and>
           Bitstream_read (Bitstream_new (underlying (flush w2))) pre m 0 = Some (r1, p1) \<and>
           Bitstream_read r1 dst nBits offset = Some (r2, dst') \<and>
           length dst' = length dst \<and>
           (\<forall>k. buf_bit dst' k =
                  (if offset \<le> k \<and> k < offset + nBits then buf_bit src k else buf_bit dst k)) \<and>
           position r1 = position w1 \<and> position r2 = position w2 \<and>
           pending r1 = pending w1 \<and> pending r2 = pending w2"
proof -
  have z: "(0::nat) < 8" by simp
  from write_loop_correct [OF writer_inv_new z, of 0 m pre "[]"] pre
  obtain w1 where w1: "write_loop (Bitstream_new []) pre 0 m 0 = Some w1" "writer_inv w1"
      "written w1 = map (buf_bit pre) [0..<m]" "position w1 = m mod 8"
    by (auto simp add: written_new buffer_bits_def position_new)
  from write_loop_correct [OF w1(2) off, of 0 nBits src] src
  obtain w2 where w2: "write_loop w1 src 0 nBits offset = Some w2" "writer_inv w2"
      "written w2 = written w1 @ map (buf_bit src) [offset..<offset + nBits]"
      "position w2 = (position w1 + nBits) mod 8"
    by auto
  define r0 where "r0 = Bitstream_new (underlying (flush w2))"
  define pad where "pad = replicate ((8 - position w2) mod 8) False"
  have u0: "unread r0 = map (buf_bit pre) [0..<m] @ map (buf_bit src) [offset..<offset + nBits] @ pad"
    by (simp add: r0_def unread_new flushed_bits [OF w2(2)] w2(3) w1(3) pad_def)
  have p0: "position r0 < 8" "position r0 = 0" by (simp_all add: r0_def position_new)
  have m0: "m \<le> length (unread r0)" by (simp add: u0)
  from read_loop_correct [OF p0(1) z, of 0 m pre] pre m0
  obtain r1 p1 where r1: "read_loop r0 pre 0 m 0 = Some (r1, p1)"
      "position r1 = (position r0 + m) mod 8" "unread r1 = drop m (unread r0)"
    by auto
  have u1: "unread r1 = map (buf_bit src) [offset..<offset + nBits] @ pad"
    by (simp add: r1(3) u0)
  have p1: "position r1 < 8" using r1(2) by simp
  have m1: "nBits \<le> length (unread r1)" by (simp add: u1)
  from read_loop_correct [OF p1 off, of 0 nBits dst] dst m1
  obtain r2 dst' where r2: "read_loop r1 dst 0 nBits offset = Some (r2, dst')"
      "position r2 = (position r1 + nBits) mod 8" "length dst' = length dst"
      "\<And>k. buf_bit dst' k =
             (if offset \<le> k \<and> k < offset + nBits then unread r1 ! (k - offset) else buf_bit dst k)"
      "unread r2 = drop nBits (unread r1)"
    by auto
  have bits: "buf_bit dst' k =
             (if offset \<le> k \<and> k < offset + nBits then buf_bit src k else buf_bit dst k)" for k
  proof (cases "offset \<le> k \<and> k < offset + nBits")
    case True
    then have "k - offset < nBits" by linarith
    then have "unread r1 ! (k - offset) = buf_bit src (offset + (k - offset))"
      by (simp add: u1 nth_append)
    then show ?thesis using True r2(4) [of k] by simp
  next
    case False
    then show ?thesis using r2(4) [of k] by auto
  qed
  define u where "u = underlying (flush w2)"
  have B: "buffer_bits u = written w1 @ map (buf_bit src) [offset..<offset + nBits] @ pad"
    by (simp add: u_def flushed_bits [OF w2(2)] w2(3) pad_def)
  have lw1: "length (written w1) = m" by (simp add: w1(3))
  have lw2: "length (written w2) = m + nBits" by (simp add: w2(3) w1(3))
  have lu: "m + nBits \<le> 8 * length u"
    using arg_cong [OF B, of length] lw1 by simp
  have f0: "fetched u r0" unfolding r0_def u_def by (rule fetched_new)
  have f1: "fetched u r1" by (rule read_loop_fetched [OF f0 p0(1) z m0 r1(1)])
  have f2: "fetched u r2" by (rule read_loop_fetched [OF f1 p1 off m1 r2(1)])
  have q1: "position r1 = m mod 8" by (simp add: r1(2) p0(2))
  have q2: "position r2 = (m + nBits) mod 8"
    unfolding r2(2) q1 by (rule mod_add_left_eq)
  have un1: "unread r1 = drop m (buffer_bits u)"
    by (simp add: r1(3) r0_def unread_new u_def)
  have un2: "unread r2 = drop (m + nBits) (buffer_bits u)"
    by (simp add: r2(5) un1 add.commute)
  have t1: "take m (buffer_bits u) = written w1" unfolding B using lw1 by simp
  have t2: "take (m + nBits) (buffer_bits u) = written w2"
    unfolding B w2(3) using lw1 by simp
  have m1u: "m \<le> 8 * length u" using lu by simp
  have pw1: "position w1 < 8" and pw2: "position w2 < 8"
    using w1(2) w2(2) by (simp_all add: writer_inv_def)
  have pend1: "pending r1 = pending w1"
    using reader_pending [OF f1 q1 un1 m1u] writer_pending [OF pw1] by (simp add: t1 lw1)
  have pend2: "pending r2 = pending w2"
    using reader_pending [OF f2 q2 un2 lu] writer_pending [OF pw2] by (simp add: t2 lw2)
  show ?thesis
  proof (intro exI conjI allI)
    show "Bitstream_write (Bitstream_new []) pre m 0 = Some w1" by (simp add: Bitstream_write_def w1(1))
    show "Bitstream_write w1 src nBits offset = Some w2" by (simp add: Bitstream_write_def w2(1))
    show "Bitstream_read (Bitstream_new (underlying (flush w2))) pre m 0 = Some (r1, p1)"
      using r1(1) by (simp add: Bitstream_read_def r0_def)
    show "Bitstream_read r1 dst nBits offset = Some (r2, dst')" by (simp add: Bitstream_read_def r2(1))
    show "length dst' = length dst" by (rule r2(3))
    show "buf_bit dst' k =
             (if offset \<le> k \<and> k < offset + nBits then buf_bit src k else buf_bit dst k)" for k
      by (rule bits)
    show "position r1 = position w1" by (simp add: r1(2) p0(2) w1(4))
    show "position r2 = position w2" by (simp add: r2(2) r1(2) p0(2) w2(4) w1(4))
    show "pending r1 = pending w1" by (rule pend1)
    show "pending r2 = pending w2" by (rule pend2)
  qed
qed












section \<open>Claims about BitIO\<close>

text \<open>
  \<^bold>\<open>C4\<close> (scenario S1, bit packing).  A fresh \<open>Bitstream\<close> that is given the booleans
  \<open>true, false, true, true\<close> and then flushed has emitted exactly one byte, \<open>0x0D\<close>
  (\<open>0b00001101\<close>), and four \<open>operator>>(bool&)\<close> calls on a fresh \<open>Bitstream\<close> over that
  output return \<open>true, false, true, true\<close>.
\<close>

theorem S1_bit_packing:
  "underlying (flush (write_bool (write_bool (write_bool (write_bool
      (Bitstream_new []) True) False) True) True)) = [0x0D] \<and>
   (let r0 = Bitstream_new (underlying (flush (write_bool (write_bool (write_bool (write_bool
               (Bitstream_new []) True) False) True) True)));
        (b1, r1) = read_bool r0;
        (b2, r2) = read_bool r1;
        (b3, r3) = read_bool r2;
        (b4, r4) = read_bool r3
    in [b1, b2, b3, b4]) = [True, False, True, True]"
  by code_simp


text \<open>
  \<^bold>\<open>C5\<close> (read inverts write and frames the buffer), as the code has it: for a bit
  offset inside the first byte, \<open>0 \<le> offset < 8\<close>.  A writer whose cursor has been put
  at an arbitrary bit position by an earlier write of \<open>m\<close> bits writes \<open>nBits\<close> bits of \<open>src\<close>
  starting at bit \<open>offset\<close> and is flushed; a reader over the emitted bytes skips the same
  \<open>m\<close> bits and reads \<open>nBits\<close> bits into \<open>dst\<close> at the same \<open>offset\<close>.  Every call returns,
  the bits \<open>offset \<dots> offset + nBits - 1\<close> of the destination are those of the source, and
  every other bit of the destination keeps its prior value.  Both buffers cover the range.
\<close>

theorem read_inverts_write:
  assumes "offset < 8"
      and "offset + nBits \<le> 8 * length src"
      and "offset + nBits \<le> 8 * length dst"
      and "m \<le> 8 * length pre"
  shows "\<exists>w1 w2 r1 p1 r2 dst'.
           Bitstream_write (Bitstream_new []) pre m 0 = Some w1 \<and>
           Bitstream_write w1 src nBits offset = Some w2 \<and>
           Bitstream_read (Bitstream_new (underlying (flush w2))) pre m 0 = Some (r1, p1) \<and>
           Bitstream_read r1 dst nBits offset = Some (r2, dst') \<and>
           length dst' = length dst \<and>
           (\<forall>k. buf_bit dst' k =
                  (if offset \<le> k \<and> k < offset + nBits then buf_bit src k else buf_bit dst k))"
proof -
  from matched_pair [OF assms] obtain w1 w2 r1 p1 r2 dst' where
    "Bitstream_write (Bitstream_new []) pre m 0 = Some w1"
    "Bitstream_write w1 src nBits offset = Some w2"
    "Bitstream_read (Bitstream_new (underlying (flush w2))) pre m 0 = Some (r1, p1)"
    "Bitstream_read r1 dst nBits offset = Some (r2, dst')"
    "length dst' = length dst"
    "\<forall>k. buf_bit dst' k =
          (if offset \<le> k \<and> k < offset + nBits then buf_bit src k else buf_bit dst k)"
    by blast
  then show ?thesis by blast
qed

theorem read_inverts_write_witness:
  "\<exists>w1 w2 r1 p1 r2 dst'.
     Bitstream_write (Bitstream_new []) [0x05] 3 0 = Some w1 \<and>
     Bitstream_write w1 [0xAB, 0xCD] 7 3 = Some w2 \<and>
     Bitstream_read (Bitstream_new (underlying (flush w2))) [0x05] 3 0 = Some (r1, p1) \<and>
     Bitstream_read r1 [0xFF, 0x00] 7 3 = Some (r2, dst') \<and>
     length dst' = length [0xFF, 0x00 :: quint8] \<and>
     (\<forall>k. buf_bit dst' k =
            (if 3 \<le> k \<and> k < 3 + 7 then buf_bit [0xAB, 0xCD] k else buf_bit [0xFF, 0x00] k))"
  by (rule read_inverts_write) simp_all

text \<open>
  For every offset the claim fails: at \<open>offset = 8\<close> the writer skips the first source byte
  and emits the second, \<open>0xCD\<close>; the reader at a byte boundary fetches \<open>0xCD\<close> in a pass that
  moves no bit (\<open>bitsToRead = 0\<close>), steps to the next destination byte and fetches again, so
  the bits \<open>8 \<dots> 15\<close> of the destination are those of the byte that follows in the stream,
  \<open>0xEF\<close>, not those the write produced.
\<close>

theorem read_offset_counterexample:
  "Bitstream_write (Bitstream_new []) [0xAB, 0xCD] 8 8 =
     Some \<lparr>underlying = [0xCD], byte = 0, position = 0\<rparr> \<and>
   Bitstream_write \<lparr>underlying = [0xCD], byte = 0, position = 0\<rparr> [0xEF] 8 0 =
     Some \<lparr>underlying = [0xCD, 0xEF], byte = 0, position = 0\<rparr> \<and>
   flush \<lparr>underlying = [0xCD, 0xEF], byte = 0, position = 0\<rparr> =
     \<lparr>underlying = [0xCD, 0xEF], byte = 0, position = 0\<rparr> \<and>
   Bitstream_read (Bitstream_new [0xCD, 0xEF]) [0x00, 0x00] 8 8 =
     Some (\<lparr>underlying = [], byte = 0xEF, position = 0\<rparr>, [0x00, 0xEF]) \<and>
   map (buf_bit [0x00, 0xEF]) [8..<16] \<noteq> map (buf_bit [0xAB, 0xCD]) [8..<16]"
  by code_simp








section \<open>IDStreamer\<close>

text \<open>
  An \<open>IDStreamer\<close> holds a reference to its \<open>Bitstream\<close> and the current width \<open>_bits\<close>.  The
  stream is passed explicitly.  An \<open>int\<close> is a \<open>32 word\<close>; \<open>&value\<close> is its four bytes in host
  order, least significant first on the little-endian hosts the codec is deployed on.
\<close>

type_synonym qint32 = "32 word"

record IDStreamer =
  bits :: nat

definition IDStreamer_new :: IDStreamer where
  "IDStreamer_new = \<lparr>bits = 1\<rparr>"

definition int_bytes :: "qint32 \<Rightarrow> quint8 list" where
  "int_bytes v = [ucast v, ucast (drop_bit 8 v), ucast (drop_bit 16 v), ucast (drop_bit 24 v)]"

definition bytes_int :: "quint8 list \<Rightarrow> qint32" where
  "bytes_int buf = ucast (buf ! 0) OR push_bit 8 (ucast (buf ! 1)) OR
                   push_bit 16 (ucast (buf ! 2)) OR push_bit 24 (ucast (buf ! 3))"

text \<open>
  \<open>getBitsForHighestValue\<close>: the loop shifts \<open>highestValue\<close> right until it is zero.  On a
  negative argument the arithmetic shift never reaches zero and the loop does not return.
\<close>

partial_function (option) getBitsForHighestValue_loop :: "int \<Rightarrow> nat \<Rightarrow> nat option" where
  "getBitsForHighestValue_loop highestValue n =
     (if highestValue \<noteq> 0
      then getBitsForHighestValue_loop (drop_bit 1 highestValue) (n + 1)
      else Some n)"

declare getBitsForHighestValue_loop.simps [code]

definition getBitsForHighestValue :: "int \<Rightarrow> nat option" where
  "getBitsForHighestValue highestValue = getBitsForHighestValue_loop highestValue 0"

text \<open>
  \<open>IDStreamer::setBitsFromValue\<close>.  The sum \<open>value + 1\<close> is on \<open>int\<close>: at the largest \<open>int\<close> it
  overflows, which C++ leaves undefined: \<open>None\<close>.
\<close>

definition setBitsFromValue :: "IDStreamer \<Rightarrow> int \<Rightarrow> IDStreamer option" where
  "setBitsFromValue ids v =
     (if 2147483647 \<le> v then None
      else case getBitsForHighestValue (v + 1) of
             None \<Rightarrow> None
           | Some n \<Rightarrow> Some (ids\<lparr>bits := n\<rparr>))"

text \<open>
  \<open>IDStreamer::operator<<(int)\<close> and \<open>IDStreamer::operator>>(int&)\<close>.  The comparison
  \<open>value == (1 << _bits) - 1\<close> is on \<open>int\<close>; from \<open>_bits = 31\<close> on the shift overflows, which
  C++ leaves undefined: \<open>None\<close>.
\<close>

definition IDStreamer_write ::
  "IDStreamer \<times> Bitstream \<Rightarrow> qint32 \<Rightarrow> (IDStreamer \<times> Bitstream) option" where
  "IDStreamer_write st v =
     (let (ids, s) = st in
      if 30 < bits ids then None
      else case Bitstream_write s (int_bytes v) (bits ids) 0 of
             None \<Rightarrow> None
           | Some s' \<Rightarrow>
               Some (if v = push_bit (bits ids) 1 - 1 then ids\<lparr>bits := bits ids + 1\<rparr> else ids, s'))"

definition IDStreamer_read ::
  "IDStreamer \<times> Bitstream \<Rightarrow> (qint32 \<times> IDStreamer \<times> Bitstream) option" where
  "IDStreamer_read st =
     (let (ids, s) = st in
      if 30 < bits ids then None
      else case Bitstream_read s (int_bytes 0) (bits ids) 0 of
             None \<Rightarrow> None
           | Some (s', buf) \<Rightarrow>
               let v = bytes_int buf
               in Some (v, if v = push_bit (bits ids) 1 - 1 then ids\<lparr>bits := bits ids + 1\<rparr> else ids,
                        s'))"

text \<open>A writer and a reader performing the same sequence of operations.\<close>

fun IDStreamer_write_all ::
  "IDStreamer \<times> Bitstream \<Rightarrow> qint32 list \<Rightarrow> (IDStreamer \<times> Bitstream) option" where
  "IDStreamer_write_all st [] = Some st"
| "IDStreamer_write_all st (v # vs) =
     (case IDStreamer_write st v of
        None \<Rightarrow> None
      | Some st' \<Rightarrow> IDStreamer_write_all st' vs)"

fun IDStreamer_read_all ::
  "IDStreamer \<times> Bitstream \<Rightarrow> nat \<Rightarrow> (qint32 list \<times> IDStreamer \<times> Bitstream) option" where
  "IDStreamer_read_all st 0 = Some ([], st)"
| "IDStreamer_read_all st (Suc n) =
     (case IDStreamer_read st of
        None \<Rightarrow> None
      | Some (v, st') \<Rightarrow>
          (case IDStreamer_read_all st' n of
             None \<Rightarrow> None
           | Some (vs, st'') \<Rightarrow> Some (v # vs, st'')))"

text \<open>
  \<open>ids_fit n vs\<close>: starting at width \<open>n\<close>, every identifier of \<open>vs\<close> is representable in the
  width current when it is written (the all-ones value included), and no width exceeds 30.
\<close>

fun ids_fit :: "nat \<Rightarrow> qint32 list \<Rightarrow> bool" where
  "ids_fit n [] = True"
| "ids_fit n (v # vs) =
     (n \<le> 30 \<and> unat v < 2 ^ n \<and> ids_fit (if v = 2 ^ n - 1 then n + 1 else n) vs)"

lemma buf_bit_int_bytes: "k < 32 \<Longrightarrow> buf_bit (int_bytes v) k = bit v k"
proof -
  assume k: "k < 32"
  then have d: "k div 8 < 4" by simp
  then consider "k div 8 = 0" | "k div 8 = 1" | "k div 8 = 2" | "k div 8 = 3" by linarith
  then show ?thesis
  proof cases
    case 1 then show ?thesis by (simp add: buf_bit_def int_bytes_def bit_simps) (metis mod_less div_eq_0_iff zero_neq_numeral)
  next
    case 2
    have "8 * (k div 8) + k mod 8 = k" by simp
    then show ?thesis using 2 by (simp add: buf_bit_def int_bytes_def bit_simps)
  next
    case 3
    have "8 * (k div 8) + k mod 8 = k" by simp
    then show ?thesis using 3 by (simp add: buf_bit_def int_bytes_def bit_simps)
  next
    case 4
    have "8 * (k div 8) + k mod 8 = k" by simp
    then show ?thesis using 4 by (simp add: buf_bit_def int_bytes_def bit_simps)
  qed
qed


lemma bit_bytes_int: "bit (bytes_int buf) k = (k < 32 \<and> buf_bit buf k)"
proof (cases "k < 32")
  case False
  then show ?thesis by (auto dest: bit_imp_le_length)
next
  case True
  then have d: "k div 8 < 4" by simp
  have e: "8 * (k div 8) + k mod 8 = k" by simp
  have m: "k mod 8 < 8" by simp
  consider "k div 8 = 0" | "k div 8 = 1" | "k div 8 = 2" | "k div 8 = 3" using d by linarith
  then show ?thesis
  proof cases
    case 1
    then have "k < 8" using e m by linarith
    then show ?thesis using 1 by (auto simp add: buf_bit_def bytes_int_def bit_simps dest: bit_imp_le_length)
  next
    case 2
    then have "8 \<le> k" "k < 16" "k mod 8 = k - 8" using e m by linarith+
    then show ?thesis using 2 by (auto simp add: buf_bit_def bytes_int_def bit_simps dest: bit_imp_le_length)
  next
    case 3
    then have "16 \<le> k" "k < 24" "k mod 8 = k - 16" using e m by linarith+
    then show ?thesis using 3 by (auto simp add: buf_bit_def bytes_int_def bit_simps dest: bit_imp_le_length)
  next
    case 4
    then have "24 \<le> k" "k < 32" "k mod 8 = k - 24" using e m True by linarith+
    then show ?thesis using 4 by (auto simp add: buf_bit_def bytes_int_def bit_simps dest: bit_imp_le_length)
  qed
qed

lemma getBitsForHighestValue_loop_nat:
  "\<exists>b. getBitsForHighestValue_loop (int h) n = Some (n + b) \<and> h < 2 ^ b \<and>
       (h = 0 \<longrightarrow> b = 0) \<and> (0 < h \<longrightarrow> (2::nat) ^ b \<le> 2 * h)"
proof (induction h arbitrary: n rule: less_induct)
  case (less h)
  show ?case
  proof (cases "h = 0")
    case True
    then show ?thesis by (subst getBitsForHighestValue_loop.simps) simp
  next
    case False
    have sh: "drop_bit (Suc 0) (int h) = int (h div 2)" by (simp add: drop_bit_eq_div zdiv_int)
    have unf: "getBitsForHighestValue_loop (int h) n = getBitsForHighestValue_loop (int (h div 2)) (n + 1)"
      using False by (subst getBitsForHighestValue_loop.simps) (simp add: sh)
    have "h div 2 < h" using False by simp
    from less.IH [OF this, of "n + 1"] obtain b where b:
      "getBitsForHighestValue_loop (int (h div 2)) (n + 1) = Some (n + 1 + b)"
      "h div 2 < 2 ^ b" "h div 2 = 0 \<longrightarrow> b = 0" "0 < h div 2 \<longrightarrow> (2::nat) ^ b \<le> 2 * (h div 2)"
      by auto
    have 1: "h < 2 ^ (b + 1)" using b(2) by simp
    have 2: "(2::nat) ^ (b + 1) \<le> 2 * h"
    proof (cases "h div 2 = 0")
      case True
      then have "h = 1" using False by simp
      then show ?thesis using b(3) True by simp
    next
      case F: False
      then have "(2::nat) ^ b \<le> 2 * (h div 2)" using b(4) by simp
      then show ?thesis by simp
    qed
    show ?thesis
      using unf b(1) 1 2 False by (intro exI [of _ "b + 1"]) simp
  qed
qed

lemma setBitsFromValue_ceillog2:
  assumes "- 1 \<le> v" "v < 2147483647"
  shows "setBitsFromValue ids v = Some (ids\<lparr>bits := ceillog2 (nat (v + 2))\<rparr>)"
proof -
  define h where "h = nat (v + 1)"
  have v: "v + 1 = int h" "nat (v + 2) = h + 1" using assms by (simp_all add: h_def)
  from getBitsForHighestValue_loop_nat [of h 0] obtain b where b:
    "getBitsForHighestValue_loop (int h) 0 = Some b" "h < 2 ^ b"
    "h = 0 \<longrightarrow> b = 0" "0 < h \<longrightarrow> (2::nat) ^ b \<le> 2 * h"
    by auto
  have "ceillog2 (h + 1) = b"
  proof (rule ceillog2_eqI)
    show "h + 1 \<le> 2 ^ b" using b(2) by simp
    show "2 ^ b < 2 * (h + 1)" using b(3,4) by (cases "h = 0") auto
  qed
  then show ?thesis
    using assms(2) by (simp add: setBitsFromValue_def getBitsForHighestValue_def v b(1))
qed


lemma map_buf_bit_int_bytes:
  assumes "n \<le> 32"
  shows "map (buf_bit (int_bytes v)) [0..<n] = map (bit v) [0..<n]"
  using assms by (intro map_cong refl buf_bit_int_bytes) simp

lemma IDStreamer_write_correct:
  assumes "writer_inv s" "bits ids \<le> 30"
  shows "\<exists>s'. IDStreamer_write (ids, s) v =
                Some (ids\<lparr>bits := if v = 2 ^ bits ids - 1 then bits ids + 1 else bits ids\<rparr>, s') \<and>
              writer_inv s' \<and>
              written s' = written s @ map (bit v) [0..<bits ids]"
proof -
  have z: "(0::nat) < 8" by simp
  have l: "8 * 0 + 0 + bits ids \<le> 8 * length (int_bytes v)"
    using assms(2) by (simp add: int_bytes_def)
  from write_loop_correct [OF assms(1) z l] obtain s' where s':
    "write_loop s (int_bytes v) 0 (bits ids) 0 = Some s'" "writer_inv s'"
    "written s' = written s @ map (buf_bit (int_bytes v)) [0..<bits ids]"
    by auto
  have "bits ids \<le> 32" using assms(2) by simp
  then have w: "written s' = written s @ map (bit v) [0..<bits ids]"
    using s'(3) by (simp add: map_buf_bit_int_bytes)
  show ?thesis
    using s'(1,2) w assms(2)
    by (auto simp add: IDStreamer_write_def Bitstream_write_def push_bit_of_1)
qed

lemma IDStreamer_read_correct:
  assumes "position r < 8" "bits ids \<le> 30" "bits ids \<le> length (unread r)"
  shows "\<exists>v r'. IDStreamer_read (ids, r) =
                Some (v, ids\<lparr>bits := if v = 2 ^ bits ids - 1 then bits ids + 1 else bits ids\<rparr>, r') \<and>
              position r' < 8 \<and>
              unread r' = drop (bits ids) (unread r) \<and>
              (\<forall>k. bit v k = (k < bits ids \<and> unread r ! k))"
proof -
  have z: "(0::nat) < 8" by simp
  have l: "8 * 0 + 0 + bits ids \<le> 8 * length (int_bytes 0)"
    using assms(2) by (simp add: int_bytes_def)
  from read_loop_correct [OF assms(1) z l assms(3)] obtain r' buf where r':
    "read_loop r (int_bytes 0) 0 (bits ids) 0 = Some (r', buf)"
    "position r' = (position r + bits ids) mod 8"
    "unread r' = drop (bits ids) (unread r)"
    "\<And>k. buf_bit buf k = (if k < bits ids then unread r ! k else buf_bit (int_bytes 0) k)"
    by auto
  have b: "bit (bytes_int buf) k = (k < bits ids \<and> unread r ! k)" for k
  proof (cases "k < 32")
    case True
    then show ?thesis using r'(4) [of k] by (simp add: bit_bytes_int buf_bit_int_bytes)
  next
    case False
    then show ?thesis using assms(2) by (simp add: bit_bytes_int)
  qed
  have p: "position r' < 8" using r'(2) by simp
  show ?thesis
    using r'(1,3) b p assms(2)
    by (auto simp add: IDStreamer_read_def Bitstream_read_def push_bit_of_1 Let_def)
qed

lemma not_bit_above:
  assumes "unat (v::qint32) < 2 ^ n" "n \<le> k"
  shows "\<not> bit v k"
proof
  assume "bit v k"
  then have "bit (unat v) k" by (simp add: bit_unsigned_iff)
  moreover have "take_bit n (unat v) = unat v" using assms(1) by (simp add: take_bit_nat_eq_self)
  ultimately have "bit (take_bit n (unat v)) k" by simp
  then show False using assms(2) by (simp add: bit_take_bit_iff)
qed

lemma IDStreamer_read_back:
  assumes "position r < 8" "bits ids \<le> 30" "unat v < 2 ^ bits ids"
      and "unread r = map (bit v) [0..<bits ids] @ rest"
  shows "\<exists>r'. IDStreamer_read (ids, r) =
                Some (v, ids\<lparr>bits := if v = 2 ^ bits ids - 1 then bits ids + 1 else bits ids\<rparr>, r') \<and>
              position r' < 8 \<and> unread r' = rest"
proof -
  have l: "bits ids \<le> length (unread r)" by (simp add: assms(4))
  from IDStreamer_read_correct [OF assms(1,2) l] obtain v' r' where r':
    "IDStreamer_read (ids, r) =
       Some (v', ids\<lparr>bits := if v' = 2 ^ bits ids - 1 then bits ids + 1 else bits ids\<rparr>, r')"
    "position r' < 8" "unread r' = drop (bits ids) (unread r)"
    "\<And>k. bit v' k = (k < bits ids \<and> unread r ! k)"
    by blast
  have "v' = v"
  proof (rule bit_eqI)
    fix k
    show "bit v' k = bit v k"
    proof (cases "k < bits ids")
      case True
      then show ?thesis using r'(4) [of k] by (simp add: assms(4) nth_append)
    next
      case False
      then show ?thesis using r'(4) [of k] not_bit_above [OF assms(3), of k] by simp
    qed
  qed
  then show ?thesis using r' by (simp add: assms(4))
qed


text \<open>
  Proof-side functions: the bits a sequence of identifiers occupies on the wire and the
  width after it, both following the rule of \<open>operator<<\<close>.
\<close>

fun ids_encoding :: "nat \<Rightarrow> qint32 list \<Rightarrow> bool list" where
  "ids_encoding n [] = []"
| "ids_encoding n (v # vs) =
     map (bit v) [0..<n] @ ids_encoding (if v = 2 ^ n - 1 then n + 1 else n) vs"

fun width_after :: "nat \<Rightarrow> qint32 list \<Rightarrow> nat" where
  "width_after n [] = n"
| "width_after n (v # vs) = width_after (if v = 2 ^ n - 1 then n + 1 else n) vs"

lemma IDStreamer_write_all_correct:
  assumes "writer_inv s" "ids_fit (bits ids) vs"
  shows "\<exists>s'. IDStreamer_write_all (ids, s) vs = Some (ids\<lparr>bits := width_after (bits ids) vs\<rparr>, s') \<and>
              writer_inv s' \<and> written s' = written s @ ids_encoding (bits ids) vs"
  using assms
proof (induction vs arbitrary: ids s)
  case Nil
  then show ?case by simp
next
  case (Cons v vs)
  define n' where "n' = (if v = 2 ^ bits ids - 1 then bits ids + 1 else bits ids)"
  have f: "bits ids \<le> 30" "ids_fit n' vs" using Cons.prems(2) by (simp_all add: n'_def)
  from IDStreamer_write_correct [OF Cons.prems(1) f(1), of v, folded n'_def] obtain s1 where s1:
    "IDStreamer_write (ids, s) v = Some (ids\<lparr>bits := n'\<rparr>, s1)" "writer_inv s1"
    "written s1 = written s @ map (bit v) [0..<bits ids]"
    by blast
  have f': "ids_fit (bits (ids\<lparr>bits := n'\<rparr>)) vs" using f(2) by simp
  from Cons.IH [OF s1(2) f'] obtain s' where s':
    "IDStreamer_write_all (ids\<lparr>bits := n'\<rparr>, s1) vs = Some (ids\<lparr>bits := width_after n' vs\<rparr>, s')"
    "writer_inv s'" "written s' = written s1 @ ids_encoding n' vs"
    by auto
  show ?case using s1(1,3) s' by (simp add: n'_def)
qed

lemma IDStreamer_read_all_correct:
  assumes "position r < 8" "ids_fit (bits ids) vs"
      and "unread r = ids_encoding (bits ids) vs @ rest"
  shows "\<exists>r'. IDStreamer_read_all (ids, r) (length vs) =
                Some (vs, ids\<lparr>bits := width_after (bits ids) vs\<rparr>, r') \<and> unread r' = rest"
  using assms
proof (induction vs arbitrary: ids r)
  case Nil
  then show ?case by simp
next
  case (Cons v vs)
  define n' where "n' = (if v = 2 ^ bits ids - 1 then bits ids + 1 else bits ids)"
  have f: "bits ids \<le> 30" "unat v < 2 ^ bits ids" "ids_fit n' vs"
    using Cons.prems(2) by (simp_all add: n'_def)
  have u: "unread r = map (bit v) [0..<bits ids] @ (ids_encoding n' vs @ rest)"
    using Cons.prems(3) by (simp add: n'_def)
  from IDStreamer_read_back [OF Cons.prems(1) f(1,2) u, folded n'_def] obtain r1 where r1:
    "IDStreamer_read (ids, r) = Some (v, ids\<lparr>bits := n'\<rparr>, r1)" "position r1 < 8"
    "unread r1 = ids_encoding n' vs @ rest"
    by blast
  have f': "ids_fit (bits (ids\<lparr>bits := n'\<rparr>)) vs" using f(3) by simp
  have u': "unread r1 = ids_encoding (bits (ids\<lparr>bits := n'\<rparr>)) vs @ rest" using r1(3) by simp
  from Cons.IH [OF r1(2) f' u'] obtain r' where r':
    "IDStreamer_read_all (ids\<lparr>bits := n'\<rparr>, r1) (length vs) =
       Some (vs, ids\<lparr>bits := width_after n' vs\<rparr>, r')" "unread r' = rest"
    by auto
  show ?case using r1(1) r' by (simp add: n'_def)
qed

lemma IDStreamer_matched:
  assumes "ids_fit (bits ids) vs"
  shows "\<exists>idw w idr r. IDStreamer_write_all (ids, Bitstream_new []) vs = Some (idw, w) \<and>
           IDStreamer_read_all (ids, Bitstream_new (underlying (flush w))) (length vs) =
             Some (vs, idr, r) \<and>
           bits idr = bits idw"
proof -
  from IDStreamer_write_all_correct [OF writer_inv_new assms, of "[]"] obtain w where w:
    "IDStreamer_write_all (ids, Bitstream_new []) vs = Some (ids\<lparr>bits := width_after (bits ids) vs\<rparr>, w)"
    "writer_inv w" "written w = ids_encoding (bits ids) vs"
    by (auto simp add: written_new buffer_bits_def)
  define r0 where "r0 = Bitstream_new (underlying (flush w))"
  have p: "position r0 < 8" by (simp add: r0_def position_new)
  have u: "unread r0 = ids_encoding (bits ids) vs @ replicate ((8 - position w) mod 8) False"
    by (simp add: r0_def unread_new flushed_bits [OF w(2)] w(3))
  from IDStreamer_read_all_correct [OF p assms u] obtain r where
    "IDStreamer_read_all (ids, r0) (length vs) =
       Some (vs, ids\<lparr>bits := width_after (bits ids) vs\<rparr>, r)"
    by blast
  then show ?thesis using w(1) unfolding r0_def by (intro exI conjI) simp_all
qed


text \<open>
  \<^bold>\<open>C3\<close> (IDStreamer contract).  The width starts at 1.  \<open>operator<<\<close> appends the low
  \<open>_bits\<close> bits of the identifier to the stream, exactly \<open>_bits\<close> of them, and increments the
  width if and only if the identifier equals \<open>(1 << _bits) - 1\<close>.  \<open>operator>>\<close> consumes
  \<open>_bits\<close> bits, returns the number they spell and increments the width if and only if that
  number equals \<open>(1 << _bits) - 1\<close>.  \<open>setBitsFromValue(max)\<close> sets the width to
  \<open>ceil(log2(max + 2))\<close>.  Consequently a writer and a reader that start at the same width
  and perform the same sequence of operations, the reader on the bytes the writer emitted,
  see the same identifiers and end with equal widths.  Widths stay below 31, where
  \<open>1 << _bits\<close> is defined, and an identifier is representable in the width it is written in.
\<close>

theorem IDStreamer_contract:
  "bits IDStreamer_new = 1 \<and>
   (writer_inv s \<and> bits ids \<le> 30 \<longrightarrow>
      (\<exists>s'. IDStreamer_write (ids, s) v =
               Some (ids\<lparr>bits := if v = 2 ^ bits ids - 1 then bits ids + 1 else bits ids\<rparr>, s') \<and>
             written s' = written s @ map (bit v) [0..<bits ids])) \<and>
   (position r < 8 \<and> bits ids \<le> 30 \<and> bits ids \<le> length (unread r) \<longrightarrow>
      (\<exists>v' r'. IDStreamer_read (ids, r) =
               Some (v', ids\<lparr>bits := if v' = 2 ^ bits ids - 1 then bits ids + 1 else bits ids\<rparr>, r') \<and>
             unread r' = drop (bits ids) (unread r) \<and>
             (\<forall>k. bit v' k = (k < bits ids \<and> unread r ! k)))) \<and>
   (- 1 \<le> m \<and> m < 2 ^ 31 - 1 \<longrightarrow>
      setBitsFromValue ids m = Some (ids\<lparr>bits := ceillog2 (nat (m + 2))\<rparr>)) \<and>
   (ids_fit (bits ids) vs \<longrightarrow>
      (\<exists>idw w idr r'. IDStreamer_write_all (ids, Bitstream_new []) vs = Some (idw, w) \<and>
         IDStreamer_read_all (ids, Bitstream_new (underlying (flush w))) (length vs) =
           Some (vs, idr, r') \<and>
         bits idr = bits idw))"
proof (intro conjI impI)
  show "bits IDStreamer_new = 1" by (simp add: IDStreamer_new_def)
next
  assume a: "writer_inv s \<and> bits ids \<le> 30"
  from IDStreamer_write_correct [OF conjunct1 [OF a] conjunct2 [OF a], of v]
  show "\<exists>s'. IDStreamer_write (ids, s) v =
               Some (ids\<lparr>bits := if v = 2 ^ bits ids - 1 then bits ids + 1 else bits ids\<rparr>, s') \<and>
             written s' = written s @ map (bit v) [0..<bits ids]"
    by blast
next
  assume a: "position r < 8 \<and> bits ids \<le> 30 \<and> bits ids \<le> length (unread r)"
  then have a': "position r < 8" "bits ids \<le> 30" "bits ids \<le> length (unread r)" by simp_all
  from IDStreamer_read_correct [OF a']
  show "\<exists>v' r'. IDStreamer_read (ids, r) =
               Some (v', ids\<lparr>bits := if v' = 2 ^ bits ids - 1 then bits ids + 1 else bits ids\<rparr>, r') \<and>
             unread r' = drop (bits ids) (unread r) \<and>
             (\<forall>k. bit v' k = (k < bits ids \<and> unread r ! k))"
    by blast
next
  assume "- 1 \<le> m \<and> m < 2 ^ 31 - 1"
  then show "setBitsFromValue ids m = Some (ids\<lparr>bits := ceillog2 (nat (m + 2))\<rparr>)"
    by (simp add: setBitsFromValue_ceillog2)
next
  assume "ids_fit (bits ids) vs"
  then show "\<exists>idw w idr r'. IDStreamer_write_all (ids, Bitstream_new []) vs = Some (idw, w) \<and>
         IDStreamer_read_all (ids, Bitstream_new (underlying (flush w))) (length vs) =
           Some (vs, idr, r') \<and>
         bits idr = bits idw"
    by (rule IDStreamer_matched)
qed

theorem IDStreamer_contract_witness:
  "bits IDStreamer_new = 1 \<and>
   (\<exists>s'. IDStreamer_write (IDStreamer_new, Bitstream_new []) 1 =
            Some (IDStreamer_new\<lparr>bits := if (1::qint32) = 2 ^ bits IDStreamer_new - 1
                                         then bits IDStreamer_new + 1 else bits IDStreamer_new\<rparr>, s') \<and>
          written s' = written (Bitstream_new []) @ map (bit (1::qint32)) [0..<bits IDStreamer_new]) \<and>
   (\<exists>v' r'. IDStreamer_read (IDStreamer_new, Bitstream_new [0x01]) =
            Some (v', IDStreamer_new\<lparr>bits := if v' = 2 ^ bits IDStreamer_new - 1
                                             then bits IDStreamer_new + 1 else bits IDStreamer_new\<rparr>, r') \<and>
          unread r' = drop (bits IDStreamer_new) (unread (Bitstream_new [0x01])) \<and>
          (\<forall>k. bit v' k = (k < bits IDStreamer_new \<and> unread (Bitstream_new [0x01]) ! k))) \<and>
   setBitsFromValue IDStreamer_new 5 = Some (IDStreamer_new\<lparr>bits := ceillog2 (nat (5 + 2))\<rparr>) \<and>
   (\<exists>idw w idr r'.
      IDStreamer_write_all (IDStreamer_new, Bitstream_new []) [1, 3, 2, 7] = Some (idw, w) \<and>
      IDStreamer_read_all (IDStreamer_new, Bitstream_new (underlying (flush w)))
          (length [1, 3, 2, 7 :: qint32]) = Some ([1, 3, 2, 7], idr, r') \<and>
      bits idr = bits idw)"
proof -
  note t = IDStreamer_contract [of "Bitstream_new []" IDStreamer_new 1 "Bitstream_new [0x01]" 5
      "[1, 3, 2, 7]"]
  have a1: "writer_inv (Bitstream_new []) \<and> bits IDStreamer_new \<le> 30"
    by (simp add: writer_inv_new IDStreamer_new_def)
  have a2: "position (Bitstream_new [0x01]) < 8 \<and> bits IDStreamer_new \<le> 30 \<and>
            bits IDStreamer_new \<le> length (unread (Bitstream_new [0x01]))"
    by (simp add: position_new unread_new IDStreamer_new_def)
  have a3: "- 1 \<le> (5::int) \<and> (5::int) < 2 ^ 31 - 1" by simp
  have a4: "ids_fit (bits IDStreamer_new) [1, 3, 2, 7]"
    by (simp add: IDStreamer_new_def)
  show ?thesis
    using t a1 a2 a3 a4 by blast
qed


section \<open>Delta encoding\<close>

text \<open>
  A \<open>QVariant\<close> is invalid or holds a value of a user type; \<open>toInt\<close> of an invalid variant is 0.
  The payload type is a parameter: it is \<open>qint32\<close> where the code calls \<open>toInt\<close>.
\<close>

datatype 'a QVariant = QVariant_Invalid | QVariant_Value (userType: nat) (payload: 'a)

definition toInt :: "qint32 QVariant \<Rightarrow> qint32" where
  "toInt v = (case v of QVariant_Invalid \<Rightarrow> 0 | QVariant_Value t p \<Rightarrow> p)"

text \<open>\<open>QMetaType::Int\<close>, the type of the variant an enum streamer produces from an \<open>int\<close>.\<close>

definition QMetaType_Int :: nat where
  "QMetaType_Int = 2"







text \<open>
  \<open>QMetaEnum\<close>: the keys with their values, in declaration order, and the flag bit.
  \<open>keyToValue\<close> returns \<open>-1\<close> for a key the enum does not have.
\<close>

record QMetaEnum =
  enumKeys :: "(string \<times> qint32) list"
  enumIsFlag :: bool

definition keyCount :: "QMetaEnum \<Rightarrow> nat" where
  "keyCount e = length (enumKeys e)"

definition keyToValue :: "QMetaEnum \<Rightarrow> string \<Rightarrow> qint32" where
  "keyToValue e k = (case map_of (enumKeys e) k of None \<Rightarrow> - 1 | Some v \<Rightarrow> v)"

definition qMax :: "qint32 \<Rightarrow> qint32 \<Rightarrow> qint32" where
  "qMax a b = (if sint a < sint b then b else a)"

text \<open>\<open>EnumTypeStreamer::getBits\<close> (the cache \<open>_bits\<close> does not change the value).\<close>

definition EnumTypeStreamer_getBits :: "QMetaEnum \<Rightarrow> nat option" where
  "EnumTypeStreamer_getBits e =
     getBitsForHighestValue (sint (fold (\<lambda>(k, v) highestValue. qMax highestValue v) (enumKeys e) 0))"

text \<open>\<open>EnumTypeStreamer::writeDelta\<close>, \<open>readDelta\<close>, \<open>writeRawDelta\<close> and \<open>readRawDelta\<close>.\<close>

definition EnumTypeStreamer_writeRawDelta ::
  "QMetaEnum \<Rightarrow> Bitstream \<Rightarrow> qint32 QVariant \<Rightarrow> qint32 QVariant \<Rightarrow> Bitstream option" where
  "EnumTypeStreamer_writeRawDelta e out v reference =
     (case EnumTypeStreamer_getBits e of
        None \<Rightarrow> None
      | Some n \<Rightarrow> Bitstream_write out (int_bytes (toInt v)) n 0)"

definition EnumTypeStreamer_readRawDelta ::
  "QMetaEnum \<Rightarrow> Bitstream \<Rightarrow> qint32 QVariant \<Rightarrow> (qint32 QVariant \<times> Bitstream) option" where
  "EnumTypeStreamer_readRawDelta e inp reference =
     (case EnumTypeStreamer_getBits e of
        None \<Rightarrow> None
      | Some n \<Rightarrow>
          (case Bitstream_read inp (int_bytes 0) n 0 of
             None \<Rightarrow> None
           | Some (in1, buf) \<Rightarrow> Some (QVariant_Value QMetaType_Int (bytes_int buf), in1)))"







lemma write_int_bits:
  assumes "writer_inv s" "n \<le> 32"
  shows "\<exists>s'. Bitstream_write s (int_bytes v) n 0 = Some s' \<and> writer_inv s' \<and>
              written s' = written s @ map (bit v) [0..<n]"
proof -
  have z: "(0::nat) < 8" by simp
  have l: "8 * 0 + 0 + n \<le> 8 * length (int_bytes v)" using assms(2) by (simp add: int_bytes_def)
  from write_loop_correct [OF assms(1) z l] obtain s' where s':
    "write_loop s (int_bytes v) 0 n 0 = Some s'" "writer_inv s'"
    "written s' = written s @ map (buf_bit (int_bytes v)) [0..<n]"
    by auto
  then show ?thesis using assms(2) by (simp add: Bitstream_write_def map_buf_bit_int_bytes)
qed

lemma read_int_bits:
  assumes "position r < 8" "n \<le> 32" "unat v < 2 ^ n"
      and "unread r = map (bit v) [0..<n] @ rest"
  shows "\<exists>r' buf. Bitstream_read r (int_bytes 0) n 0 = Some (r', buf) \<and> bytes_int buf = v \<and>
              position r' < 8 \<and> unread r' = rest"
proof -
  have z: "(0::nat) < 8" by simp
  have l: "8 * 0 + 0 + n \<le> 8 * length (int_bytes 0)" using assms(2) by (simp add: int_bytes_def)
  have a: "n \<le> length (unread r)" by (simp add: assms(4))
  from read_loop_correct [OF assms(1) z l a] obtain r' buf where r':
    "read_loop r (int_bytes 0) 0 n 0 = Some (r', buf)"
    "position r' = (position r + n) mod 8"
    "unread r' = drop n (unread r)"
    "\<And>k. buf_bit buf k = (if k < n then unread r ! k else buf_bit (int_bytes 0) k)"
    by auto
  have "bytes_int buf = v"
  proof (rule bit_eqI)
    fix k
    show "bit (bytes_int buf) k = bit v k"
    proof (cases "k < n")
      case True
      then have "k < 32" using assms(2) by simp
      then show ?thesis using True r'(4) [of k] by (simp add: bit_bytes_int assms(4) nth_append)
    next
      case False
      then have nb: "\<not> bit v k" using not_bit_above [OF assms(3), of k] by simp
      show ?thesis
      proof (cases "k < 32")
        case True
        then show ?thesis using False nb r'(4) [of k] by (simp add: bit_bytes_int buf_bit_int_bytes)
      next
        case F: False
        then show ?thesis using nb by (simp add: bit_bytes_int)
      qed
    qed
  qed
  moreover have "position r' < 8" using r'(2) by simp
  ultimately show ?thesis using r'(1,3) by (simp add: Bitstream_read_def assms(4))
qed








section \<open>Typed values on the stream\<close>

text \<open>
  \<open>operator<<(int)\<close> and \<open>operator>>(int&)\<close>: the 32 bits of the value.  \<open>operator<<(qint64)\<close>,
  \<open>operator<<(double)\<close> and their readers move the 64 bits of the value; a \<open>double\<close> is its bit
  pattern.
\<close>

type_synonym qint64 = "64 word"

definition long_bytes :: "qint64 \<Rightarrow> quint8 list" where
  "long_bytes v = map (\<lambda>k. ucast (drop_bit (8 * k) v)) [0..<8]"

definition bytes_long :: "quint8 list \<Rightarrow> qint64" where
  "bytes_long buf = foldr (\<lambda>b acc. ucast b OR push_bit 8 acc) buf 0"

definition Bitstream_write_int :: "Bitstream \<Rightarrow> qint32 \<Rightarrow> Bitstream option" where
  "Bitstream_write_int s v = Bitstream_write s (int_bytes v) 32 0"

definition Bitstream_read_int :: "Bitstream \<Rightarrow> (qint32 \<times> Bitstream) option" where
  "Bitstream_read_int s =
     (case Bitstream_read s (int_bytes 0) 32 0 of
        None \<Rightarrow> None
      | Some (s', buf) \<Rightarrow> Some (bytes_int buf, s'))"

definition Bitstream_write_qint64 :: "Bitstream \<Rightarrow> qint64 \<Rightarrow> Bitstream option" where
  "Bitstream_write_qint64 s v = Bitstream_write s (long_bytes v) 64 0"

definition Bitstream_read_qint64 :: "Bitstream \<Rightarrow> (qint64 \<times> Bitstream) option" where
  "Bitstream_read_qint64 s =
     (case Bitstream_read s (long_bytes 0) 64 0 of
        None \<Rightarrow> None
      | Some (s', buf) \<Rightarrow> Some (bytes_long buf, s'))"

text \<open>
  \<open>operator<<(const QByteArray&)\<close> and \<open>operator>>(QByteArray&)\<close>: the size as an \<open>int\<close>, then
  the bytes.  \<open>resize\<close> leaves the new bytes unspecified and \<open>read\<close> overwrites all of them;
  they are zero here.  A negative size reads nothing.
\<close>

type_synonym QByteArray = "quint8 list"

definition Bitstream_write_QByteArray :: "Bitstream \<Rightarrow> QByteArray \<Rightarrow> Bitstream option" where
  "Bitstream_write_QByteArray s string =
     (case Bitstream_write_int s (of_nat (length string)) of
        None \<Rightarrow> None
      | Some s1 \<Rightarrow> Bitstream_write s1 string (length string * BITS_IN_BYTE) 0)"

definition Bitstream_read_QByteArray :: "Bitstream \<Rightarrow> (QByteArray \<times> Bitstream) option" where
  "Bitstream_read_QByteArray s =
     (case Bitstream_read_int s of
        None \<Rightarrow> None
      | Some (sz, s1) \<Rightarrow>
          (case Bitstream_read s1 (replicate (nat (sint sz)) 0) (nat (sint sz) * BITS_IN_BYTE) 0 of
             None \<Rightarrow> None
           | Some (s2, string) \<Rightarrow> Some (string, s2)))"

text \<open>
  \<open>operator<<(const QString&)\<close> and \<open>operator>>(QString&)\<close>: the size in code units, then the
  code units, two bytes each in host order.
\<close>

type_synonym QString = "16 word list"

definition QString_data :: "QString \<Rightarrow> quint8 list" where
  "QString_data string = concat (map (\<lambda>c. [ucast c, ucast (drop_bit 8 c)]) string)"

fun QString_of_data :: "quint8 list \<Rightarrow> QString" where
  "QString_of_data (lo # hi # rest) = (ucast lo OR push_bit 8 (ucast hi)) # QString_of_data rest"
| "QString_of_data _ = []"

definition Bitstream_write_QString :: "Bitstream \<Rightarrow> QString \<Rightarrow> Bitstream option" where
  "Bitstream_write_QString s string =
     (case Bitstream_write_int s (of_nat (length string)) of
        None \<Rightarrow> None
      | Some s1 \<Rightarrow> Bitstream_write s1 (QString_data string) (length string * 2 * BITS_IN_BYTE) 0)"

definition Bitstream_read_QString :: "Bitstream \<Rightarrow> (QString \<times> Bitstream) option" where
  "Bitstream_read_QString s =
     (case Bitstream_read_int s of
        None \<Rightarrow> None
      | Some (sz, s1) \<Rightarrow>
          (case Bitstream_read s1 (replicate (nat (sint sz) * 2) 0)
                  (nat (sint sz) * 2 * BITS_IN_BYTE) 0 of
             None \<Rightarrow> None
           | Some (s2, buf) \<Rightarrow> Some (QString_of_data buf, s2)))"

section \<open>Script values\<close>

text \<open>
  The kinds of \<open>enum ScriptValueType\<close> with their enumerator values, written in
  \<open>SCRIPT_VALUE_BITS = 4\<close> bits.
\<close>

definition INVALID_SCRIPT_VALUE :: qint32 where "INVALID_SCRIPT_VALUE = 0"
definition UNDEFINED_SCRIPT_VALUE :: qint32 where "UNDEFINED_SCRIPT_VALUE = 1"
definition NULL_SCRIPT_VALUE :: qint32 where "NULL_SCRIPT_VALUE = 2"
definition BOOL_SCRIPT_VALUE :: qint32 where "BOOL_SCRIPT_VALUE = 3"
definition NUMBER_SCRIPT_VALUE :: qint32 where "NUMBER_SCRIPT_VALUE = 4"
definition STRING_SCRIPT_VALUE :: qint32 where "STRING_SCRIPT_VALUE = 5"
definition VARIANT_SCRIPT_VALUE :: qint32 where "VARIANT_SCRIPT_VALUE = 6"
definition QOBJECT_SCRIPT_VALUE :: qint32 where "QOBJECT_SCRIPT_VALUE = 7"
definition QMETAOBJECT_SCRIPT_VALUE :: qint32 where "QMETAOBJECT_SCRIPT_VALUE = 8"
definition DATE_SCRIPT_VALUE :: qint32 where "DATE_SCRIPT_VALUE = 9"
definition REGEXP_SCRIPT_VALUE :: qint32 where "REGEXP_SCRIPT_VALUE = 10"
definition ARRAY_SCRIPT_VALUE :: qint32 where "ARRAY_SCRIPT_VALUE = 11"
definition OBJECT_SCRIPT_VALUE :: qint32 where "OBJECT_SCRIPT_VALUE = 12"

definition SCRIPT_VALUE_BITS :: nat where
  "SCRIPT_VALUE_BITS = 4"

definition writeScriptValueType :: "Bitstream \<Rightarrow> qint32 \<Rightarrow> Bitstream option" where
  "writeScriptValueType out t = Bitstream_write out (int_bytes t) SCRIPT_VALUE_BITS 0"

definition readScriptValueType :: "Bitstream \<Rightarrow> (qint32 \<times> Bitstream) option" where
  "readScriptValueType inp =
     (case Bitstream_read inp (int_bytes 0) SCRIPT_VALUE_BITS 0 of
        None \<Rightarrow> None
      | Some (in1, buf) \<Rightarrow> Some (bytes_int buf, in1))"

text \<open>
  A \<open>QScriptValue\<close> of one of the kinds whose payload is written without recursion into
  \<open>operator<<(const QScriptValue&)\<close>.  Arrays and objects, whose elements are written by
  the same operator, and regular expressions are not part of this datatype.  The variant,
  the object and the meta-object payloads are streamed through the \<open>RepeatedValueStreamer\<close>s
  of the \<open>Bitstream\<close>, whose code is not among the sources: their writers and readers are the
  fields of a record of collaborators.
\<close>

datatype ('v, 'o, 'm) QScriptValue =
    ScriptInvalid
  | ScriptUndefined
  | ScriptNull
  | ScriptBool bool
  | ScriptNumber qint64
  | ScriptString QString
  | ScriptVariant 'v
  | ScriptQObject 'o
  | ScriptQMetaObject 'm
  | ScriptDate qint64

record ('v, 'o, 'm) Collaborators =
  writeVariant :: "Bitstream \<Rightarrow> 'v \<Rightarrow> Bitstream option"
  readVariant :: "Bitstream \<Rightarrow> ('v \<times> Bitstream) option"
  writeQObject :: "Bitstream \<Rightarrow> 'o \<Rightarrow> Bitstream option"
  readQObject :: "Bitstream \<Rightarrow> ('o \<times> Bitstream) option"
  writeQMetaObject :: "Bitstream \<Rightarrow> 'm \<Rightarrow> Bitstream option"
  readQMetaObject :: "Bitstream \<Rightarrow> ('m \<times> Bitstream) option"

text \<open>\<open>Bitstream::operator<<(const QScriptValue&)\<close>.\<close>

fun Bitstream_write_QScriptValue ::
  "('v, 'o, 'm) Collaborators \<Rightarrow> Bitstream \<Rightarrow> ('v, 'o, 'm) QScriptValue \<Rightarrow> Bitstream option" where
  "Bitstream_write_QScriptValue c s ScriptUndefined = writeScriptValueType s UNDEFINED_SCRIPT_VALUE"
| "Bitstream_write_QScriptValue c s ScriptNull = writeScriptValueType s NULL_SCRIPT_VALUE"
| "Bitstream_write_QScriptValue c s (ScriptBool b) =
     (case writeScriptValueType s BOOL_SCRIPT_VALUE of
        None \<Rightarrow> None | Some s1 \<Rightarrow> Some (write_bool s1 b))"
| "Bitstream_write_QScriptValue c s (ScriptNumber n) =
     (case writeScriptValueType s NUMBER_SCRIPT_VALUE of
        None \<Rightarrow> None | Some s1 \<Rightarrow> Bitstream_write_qint64 s1 n)"
| "Bitstream_write_QScriptValue c s (ScriptString str) =
     (case writeScriptValueType s STRING_SCRIPT_VALUE of
        None \<Rightarrow> None | Some s1 \<Rightarrow> Bitstream_write_QString s1 str)"
| "Bitstream_write_QScriptValue c s (ScriptVariant v) =
     (case writeScriptValueType s VARIANT_SCRIPT_VALUE of
        None \<Rightarrow> None | Some s1 \<Rightarrow> writeVariant c s1 v)"
| "Bitstream_write_QScriptValue c s (ScriptQObject obj) =
     (case writeScriptValueType s QOBJECT_SCRIPT_VALUE of
        None \<Rightarrow> None | Some s1 \<Rightarrow> writeQObject c s1 obj)"
| "Bitstream_write_QScriptValue c s (ScriptQMetaObject m) =
     (case writeScriptValueType s QMETAOBJECT_SCRIPT_VALUE of
        None \<Rightarrow> None | Some s1 \<Rightarrow> writeQMetaObject c s1 m)"
| "Bitstream_write_QScriptValue c s (ScriptDate d) =
     (case writeScriptValueType s DATE_SCRIPT_VALUE of
        None \<Rightarrow> None | Some s1 \<Rightarrow> Bitstream_write_qint64 s1 d)"
| "Bitstream_write_QScriptValue c s ScriptInvalid = writeScriptValueType s INVALID_SCRIPT_VALUE"

text \<open>
  \<open>Bitstream::operator>>(QScriptValue&)\<close>.  The argument \<open>value0\<close> is what the caller's
  variable holds before the call: the operator returns it where a \<open>case\<close> of the \<open>switch\<close>
  does not assign to \<open>value\<close>.  The cases \<open>QOBJECT_SCRIPT_VALUE\<close> and
  \<open>QMETAOBJECT_SCRIPT_VALUE\<close> read the payload, call \<open>newQObject\<close> or \<open>newQMetaObject\<close> and drop
  the result.  The remaining tags (regular expression, array, object) are outside this
  model: \<open>None\<close>.  Tags 13 to 15 take the \<open>default\<close> branch together with
  \<open>INVALID_SCRIPT_VALUE\<close>.
\<close>

definition Bitstream_read_QScriptValue ::
  "('v, 'o, 'm) Collaborators \<Rightarrow> Bitstream \<Rightarrow> ('v, 'o, 'm) QScriptValue \<Rightarrow>
   (('v, 'o, 'm) QScriptValue \<times> Bitstream) option" where
  "Bitstream_read_QScriptValue c inp value0 =
     (case readScriptValueType inp of
        None \<Rightarrow> None
      | Some (t, in1) \<Rightarrow>
          if t = UNDEFINED_SCRIPT_VALUE then Some (ScriptUndefined, in1)
          else if t = NULL_SCRIPT_VALUE then Some (ScriptNull, in1)
          else if t = BOOL_SCRIPT_VALUE then
            (let (boolValue, in2) = read_bool in1 in Some (ScriptBool boolValue, in2))
          else if t = NUMBER_SCRIPT_VALUE then
            (case Bitstream_read_qint64 in1 of
               None \<Rightarrow> None | Some (numberValue, in2) \<Rightarrow> Some (ScriptNumber numberValue, in2))
          else if t = STRING_SCRIPT_VALUE then
            (case Bitstream_read_QString in1 of
               None \<Rightarrow> None | Some (stringValue, in2) \<Rightarrow> Some (ScriptString stringValue, in2))
          else if t = VARIANT_SCRIPT_VALUE then
            (case readVariant c in1 of
               None \<Rightarrow> None | Some (variantValue, in2) \<Rightarrow> Some (ScriptVariant variantValue, in2))
          else if t = QOBJECT_SCRIPT_VALUE then
            (case readQObject c in1 of
               None \<Rightarrow> None | Some (object, in2) \<Rightarrow> Some (value0, in2))
          else if t = QMETAOBJECT_SCRIPT_VALUE then
            (case readQMetaObject c in1 of
               None \<Rightarrow> None | Some (metaObject, in2) \<Rightarrow> Some (value0, in2))
          else if t = DATE_SCRIPT_VALUE then
            (case Bitstream_read_qint64 in1 of
               None \<Rightarrow> None | Some (dateTime, in2) \<Rightarrow> Some (ScriptDate dateTime, in2))
          else if t = REGEXP_SCRIPT_VALUE \<or> t = ARRAY_SCRIPT_VALUE \<or> t = OBJECT_SCRIPT_VALUE
          then None
          else Some (ScriptInvalid, in1))"

text \<open>
  \<open>Bitstream::readRawDelta(QScriptValue&, const QScriptValue&)\<close>, the branch of a reference
  that is a \<open>QMetaObject\<close>: the sibling of the case above, which does assign the new
  meta-object to \<open>value\<close>.
\<close>

definition Bitstream_readRawDelta_QMetaObject ::
  "('v, 'o, 'm) Collaborators \<Rightarrow> Bitstream \<Rightarrow> ('v, 'o, 'm) QScriptValue \<Rightarrow>
   (('v, 'o, 'm) QScriptValue \<times> Bitstream) option" where
  "Bitstream_readRawDelta_QMetaObject c inp value0 =
     (let (typeChanged, in1) = read_bool inp
      in if typeChanged then Bitstream_read_QScriptValue c in1 value0
         else case readQMetaObject c in1 of
                None \<Rightarrow> None
              | Some (metaObject, in2) \<Rightarrow> Some (ScriptQMetaObject metaObject, in2))"


text \<open>
  Collaborators for evaluation: variants, objects and meta-objects named by an \<open>int\<close> that
  is written with \<open>operator<<(int)\<close>.
\<close>

definition int_collaborators :: "(qint32, qint32, qint32) Collaborators" where
  "int_collaborators =
     \<lparr>writeVariant = Bitstream_write_int, readVariant = Bitstream_read_int,
      writeQObject = Bitstream_write_int, readQObject = Bitstream_read_int,
      writeQMetaObject = Bitstream_write_int, readQMetaObject = Bitstream_read_int\<rparr>"

lemma read_QScriptValue_QMetaObject:
  assumes "readScriptValueType inp = Some (QMETAOBJECT_SCRIPT_VALUE, in1)"
      and "readQMetaObject c in1 = Some (m, in2)"
  shows "Bitstream_read_QScriptValue c inp value0 = Some (value0, in2)"
  using assms
  by (simp add: Bitstream_read_QScriptValue_def QMETAOBJECT_SCRIPT_VALUE_def
        UNDEFINED_SCRIPT_VALUE_def NULL_SCRIPT_VALUE_def BOOL_SCRIPT_VALUE_def
        NUMBER_SCRIPT_VALUE_def STRING_SCRIPT_VALUE_def VARIANT_SCRIPT_VALUE_def
        QOBJECT_SCRIPT_VALUE_def)

lemma read_QScriptValue_QObject:
  assumes "readScriptValueType inp = Some (QOBJECT_SCRIPT_VALUE, in1)"
      and "readQObject c in1 = Some (obj, in2)"
  shows "Bitstream_read_QScriptValue c inp value0 = Some (value0, in2)"
  using assms
  by (simp add: Bitstream_read_QScriptValue_def QMETAOBJECT_SCRIPT_VALUE_def
        UNDEFINED_SCRIPT_VALUE_def NULL_SCRIPT_VALUE_def BOOL_SCRIPT_VALUE_def
        NUMBER_SCRIPT_VALUE_def STRING_SCRIPT_VALUE_def VARIANT_SCRIPT_VALUE_def
        QOBJECT_SCRIPT_VALUE_def)

text \<open>
  \<^bold>\<open>C1\<close> (round-trip identity) at a script value of kind \<open>QMETAOBJECT_SCRIPT_VALUE\<close> and at
  one of kind \<open>QOBJECT_SCRIPT_VALUE\<close>.  The writer emits the kind tag and the payload;
  \<open>operator>>(QScriptValue&)\<close> on these bytes consumes tag and payload and leaves the
  caller's variable as it was (here the invalid value), so the decoded value is not the
  value written.  A boolean written and read the same way does come back, and the delta
  reader \<open>readRawDelta\<close> does return the meta-object it reads.
\<close>

theorem script_value_round_trip_fails:
  "Bitstream_write_QScriptValue int_collaborators (Bitstream_new []) (ScriptQMetaObject 7) =
     Some \<lparr>underlying = [0x78, 0, 0, 0], byte = 0, position = 4\<rparr> \<and>
   Bitstream_read_QScriptValue int_collaborators (Bitstream_new [0x78, 0, 0, 0, 0]) ScriptInvalid =
     Some (ScriptInvalid, \<lparr>underlying = [], byte = 0, position = 4\<rparr>) \<and>
   Bitstream_write_QScriptValue int_collaborators (Bitstream_new []) (ScriptQObject 7) =
     Some \<lparr>underlying = [0x77, 0, 0, 0], byte = 0, position = 4\<rparr> \<and>
   Bitstream_read_QScriptValue int_collaborators (Bitstream_new [0x77, 0, 0, 0, 0]) ScriptInvalid =
     Some (ScriptInvalid, \<lparr>underlying = [], byte = 0, position = 4\<rparr>) \<and>
   Bitstream_write_QScriptValue int_collaborators (Bitstream_new []) (ScriptBool True) =
     Some \<lparr>underlying = [], byte = 0x13, position = 5\<rparr> \<and>
   Bitstream_read_QScriptValue int_collaborators (Bitstream_new [0x13]) ScriptInvalid =
     Some (ScriptBool True, \<lparr>underlying = [], byte = 0x13, position = 5\<rparr>) \<and>
   Bitstream_readRawDelta_QMetaObject int_collaborators (Bitstream_new [0x0E, 0, 0, 0, 0])
       (ScriptQMetaObject 3) =
     Some (ScriptQMetaObject 7, \<lparr>underlying = [], byte = 0, position = 1\<rparr>)"
  by code_simp


section \<open>Writing a QVariant\<close>

text \<open>
  A registered \<open>TypeStreamer\<close>, as far as \<open>operator<<(const QVariant&)\<close> uses it: the virtual
  \<open>getStreamerToWrite\<close> (the streamer it names is identified by its type name) and the virtual
  \<open>write\<close>.
\<close>

record 'a TypeStreamer =
  getStreamerToWrite :: "'a QVariant \<Rightarrow> string"
  writeValue :: "Bitstream \<Rightarrow> 'a QVariant \<Rightarrow> Bitstream option"

text \<open>
  \<open>Bitstream::operator<<(const QVariant&)\<close>.  The state is the \<open>_typeStreamerStreamer\<close>, the bit
  cursor and the messages given to \<open>qWarning()\<close>.  \<open>getTypeStreamers\<close> is the registry (type to
  streamer, \<open>None\<close> for the null pointer \<open>QHash::value\<close> returns), \<open>typeName\<close> is
  \<open>QMetaType::typeName\<close>.  \<open>RepeatedValueStreamer::operator<<\<close> is declared in \<open>Bitstream.h\<close>,
  which is not among the sources: \<open>typeStreamerStreamer_write\<close> stands for it, applied to
  \<open>None\<close> for \<open>NULL\<close>.
\<close>

definition Bitstream_write_QVariant ::
  "(nat \<Rightarrow> 'a TypeStreamer option) \<Rightarrow> (nat \<Rightarrow> string) \<Rightarrow>
   (string option \<Rightarrow> 'r \<times> Bitstream \<Rightarrow> ('r \<times> Bitstream) option) \<Rightarrow>
   'r \<times> Bitstream \<times> string list \<Rightarrow> 'a QVariant \<Rightarrow> ('r \<times> Bitstream \<times> string list) option" where
  "Bitstream_write_QVariant getTypeStreamers typeName typeStreamerStreamer_write st v =
     (let (tss, s, warnings) = st in
      case v of
        QVariant_Invalid \<Rightarrow>
          (case typeStreamerStreamer_write None (tss, s) of
             None \<Rightarrow> None
           | Some (tss', s') \<Rightarrow> Some (tss', s', warnings))
      | QVariant_Value t p \<Rightarrow>
          (case getTypeStreamers t of
             Some streamer \<Rightarrow>
               (case typeStreamerStreamer_write (Some (getStreamerToWrite streamer v)) (tss, s) of
                  None \<Rightarrow> None
                | Some (tss', s') \<Rightarrow>
                    (case writeValue streamer s' v of
                       None \<Rightarrow> None
                     | Some s'' \<Rightarrow> Some (tss', s'', warnings)))
           | None \<Rightarrow> Some (tss, s, warnings @ [''Non-streamable type: '' @ typeName t])))"

text \<open>
  Modelled from the spec: \<open>RepeatedValueStreamer::operator<<\<close> (declared in \<open>Bitstream.h\<close>,
  which is not among the sources), for the type descriptors.  "If \<open>v\<close> is null/empty, emit
  sentinel \<open>0\<close>"; a value seen for the first time is announced by "the new-value sentinel
  (the current \<open>(1<<bits)-1\<close> via IDStreamer, which advances \<open>bits\<close>)".  The table of known
  values and the full form that follows the marker are not modelled: every non-null value
  is treated as new.
\<close>

definition typeStreamerStreamer_write_spec ::
  "string option \<Rightarrow> IDStreamer \<times> Bitstream \<Rightarrow> (IDStreamer \<times> Bitstream) option" where
  "typeStreamerStreamer_write_spec v st =
     (case v of
        None \<Rightarrow> IDStreamer_write st 0
      | Some name \<Rightarrow> IDStreamer_write st (2 ^ bits (fst st) - 1))"

text \<open>
  \<^bold>\<open>C8\<close> (non-streamable type), as the code has it.  Writing a valid \<open>QVariant\<close> whose user
  type has no registered streamer appends the warning to the log and leaves the stream and
  the type-descriptor streamer exactly as they were: nothing is emitted.
\<close>

theorem non_streamable_type_writes_nothing:
  assumes "getTypeStreamers t = None"
  shows "Bitstream_write_QVariant getTypeStreamers typeName typeStreamerStreamer_write
           (tss, s, warnings) (QVariant_Value t p) =
         Some (tss, s, warnings @ [''Non-streamable type: '' @ typeName t])"
  using assms by (simp add: Bitstream_write_QVariant_def)

theorem non_streamable_type_writes_nothing_witness:
  "Bitstream_write_QVariant (\<lambda>t. None :: unit TypeStreamer option) (\<lambda>t. ''Foo'')
       typeStreamerStreamer_write_spec
       (IDStreamer_new, Bitstream_new [], []) (QVariant_Value 1000 ()) =
     Some (IDStreamer_new, Bitstream_new [], [] @ [''Non-streamable type: '' @ ''Foo''])"
  by (rule non_streamable_type_writes_nothing) simp

text \<open>
  The claim as stated fails: for a value of the unregistered type 1000 the stream is
  unchanged, whereas the empty-type sentinel, which the same operator emits for an invalid
  variant, occupies one bit of it.
\<close>

theorem non_streamable_type_counterexample:
  "Bitstream_write_QVariant (\<lambda>t. None :: unit TypeStreamer option) (\<lambda>t. ''Foo'')
       typeStreamerStreamer_write_spec
       (IDStreamer_new, Bitstream_new [], []) (QVariant_Value 1000 ()) =
     Some (IDStreamer_new, \<lparr>underlying = [], byte = 0, position = 0\<rparr>,
           [''Non-streamable type: Foo'']) \<and>
   Bitstream_write_QVariant (\<lambda>t. None :: unit TypeStreamer option) (\<lambda>t. ''Foo'')
       typeStreamerStreamer_write_spec
       (IDStreamer_new, Bitstream_new [], []) QVariant_Invalid =
     Some (IDStreamer_new, \<lparr>underlying = [], byte = 0, position = 1\<rparr>, [])"
  by code_simp


section \<open>Enum descriptors and the TypeReader\<close>

datatype MetadataType = NO_METADATA | HASH_METADATA | FULL_METADATA

datatype ReaderType = SIMPLE_TYPE | ENUM_TYPE | STREAMABLE_TYPE | LIST_TYPE | SET_TYPE | MAP_TYPE

text \<open>
  The local streamer a type name resolves to, as far as the enum case of
  \<open>Bitstream::operator>(TypeReader&)\<close> and \<open>TypeReader::read\<close> use it: the base class with its
  type tag (reader type \<open>SIMPLE_TYPE\<close>, an invalid \<open>QMetaEnum\<close>, a \<open>setEnumValue\<close> that does
  nothing) or an \<open>EnumTypeStreamer\<close> (its type tag is \<open>QMetaType::Int\<close>).
\<close>

datatype LocalStreamer = BaseTypeStreamer nat | EnumTypeStreamer QMetaEnum

definition QMetaEnum_invalid :: QMetaEnum where
  "QMetaEnum_invalid = \<lparr>enumKeys = [], enumIsFlag = False\<rparr>"

fun getReaderType :: "LocalStreamer \<Rightarrow> ReaderType" where
  "getReaderType (BaseTypeStreamer t) = SIMPLE_TYPE"
| "getReaderType (EnumTypeStreamer e) = ENUM_TYPE"

fun getMetaEnum :: "LocalStreamer \<Rightarrow> QMetaEnum" where
  "getMetaEnum (BaseTypeStreamer t) = QMetaEnum_invalid"
| "getMetaEnum (EnumTypeStreamer e) = e"

fun getType :: "LocalStreamer \<Rightarrow> nat" where
  "getType (BaseTypeStreamer t) = t"
| "getType (EnumTypeStreamer e) = QMetaType_Int"

text \<open>
  \<open>QHash<int, int>\<close> as an association list with one entry per key: \<open>insert\<close> replaces,
  \<open>value\<close> returns 0 for a missing key.
\<close>

type_synonym IntHash = "(qint32 \<times> qint32) list"

definition IntHash_value :: "IntHash \<Rightarrow> qint32 \<Rightarrow> qint32" where
  "IntHash_value mappings k = (case map_of mappings k of None \<Rightarrow> 0 | Some v \<Rightarrow> v)"

text \<open>\<open>TypeStreamer::setEnumValue\<close> (nothing) and \<open>EnumTypeStreamer::setEnumValue\<close>.\<close>

fun setEnumValue :: "LocalStreamer \<Rightarrow> qint32 QVariant \<Rightarrow> qint32 \<Rightarrow> IntHash \<Rightarrow> qint32 QVariant" where
  "setEnumValue (BaseTypeStreamer t) object v mappings = object"
| "setEnumValue (EnumTypeStreamer e) object v mappings =
     (if enumIsFlag e
      then QVariant_Value QMetaType_Int
             (fold (\<lambda>(key, val) combined. if v AND key \<noteq> 0 then combined OR val else combined)
                mappings 0)
      else QVariant_Value QMetaType_Int (IntHash_value mappings v))"

text \<open>
  \<open>TypeReader\<close>, with the members the enum case uses.  The two-argument constructor sets
  \<open>_exactMatch\<close> and leaves \<open>_type\<close> and \<open>_bits\<close> uninitialised; they are never read then and
  are \<open>SIMPLE_TYPE\<close> and 0 here.
\<close>

record TypeReader =
  reader_typeName :: QByteArray
  reader_streamer :: "LocalStreamer option"
  reader_exactMatch :: bool
  reader_type :: ReaderType
  reader_bits :: nat
  reader_mappings :: IntHash

definition TypeReader_exact :: "QByteArray \<Rightarrow> LocalStreamer option \<Rightarrow> TypeReader" where
  "TypeReader_exact name st =
     \<lparr>reader_typeName = name, reader_streamer = st, reader_exactMatch = True,
      reader_type = SIMPLE_TYPE, reader_bits = 0, reader_mappings = []\<rparr>"

definition TypeReader_enum ::
  "QByteArray \<Rightarrow> LocalStreamer option \<Rightarrow> nat \<Rightarrow> IntHash \<Rightarrow> TypeReader" where
  "TypeReader_enum name st n m =
     \<lparr>reader_typeName = name, reader_streamer = st, reader_exactMatch = False,
      reader_type = ENUM_TYPE, reader_bits = n, reader_mappings = m\<rparr>"

text \<open>Keys travel as \<open>QByteArray\<close>s; \<open>QMetaEnum\<close> compares them as C strings.\<close>

definition QByteArray_of_string :: "string \<Rightarrow> QByteArray" where
  "QByteArray_of_string str = map (\<lambda>c. of_nat (of_char c)) str"

definition string_of_QByteArray :: "QByteArray \<Rightarrow> string" where
  "string_of_QByteArray b = map (\<lambda>x. char_of (unat x)) b"

text \<open>
  The input of the enum hash: each key with its terminating zero byte, then the four bytes
  of its value.  \<open>QCryptographicHash\<close> with \<open>Md5\<close> is a parameter \<open>md5\<close> of the functions below.
\<close>

definition enum_hash_data :: "QMetaEnum \<Rightarrow> quint8 list" where
  "enum_hash_data e = concat (map (\<lambda>(k, v). QByteArray_of_string k @ [0] @ int_bytes v) (enumKeys e))"

text \<open>
  \<open>Bitstream::operator<(const TypeStreamer*)\<close>, the case \<open>TypeReader::ENUM_TYPE\<close>: what the
  peer writes after the type name and the kind.
\<close>

fun write_enum_keys :: "Bitstream \<Rightarrow> (string \<times> qint32) list \<Rightarrow> Bitstream option" where
  "write_enum_keys s [] = Some s"
| "write_enum_keys s ((k, v) # rest) =
     (case Bitstream_write_QByteArray s (QByteArray_of_string k) of
        None \<Rightarrow> None
      | Some s1 \<Rightarrow>
          (case Bitstream_write_int s1 v of
             None \<Rightarrow> None
           | Some s2 \<Rightarrow> write_enum_keys s2 rest))"

definition write_enum_metadata ::
  "(quint8 list \<Rightarrow> quint8 list) \<Rightarrow> MetadataType \<Rightarrow> QMetaEnum \<Rightarrow> Bitstream \<Rightarrow> Bitstream option" where
  "write_enum_metadata md5 metadataType metaEnum s =
     (if metadataType = FULL_METADATA
      then case Bitstream_write_int s (of_nat (keyCount metaEnum)) of
             None \<Rightarrow> None
           | Some s1 \<Rightarrow> write_enum_keys s1 (enumKeys metaEnum)
      else case EnumTypeStreamer_getBits metaEnum of
             None \<Rightarrow> None
           | Some n \<Rightarrow>
               (case Bitstream_write_int s (of_nat n) of
                  None \<Rightarrow> None
                | Some s1 \<Rightarrow>
                    (let hashResult = md5 (enum_hash_data metaEnum)
                     in Bitstream_write s1 hashResult (length hashResult * BITS_IN_BYTE) 0)))"

text \<open>\<open>EnumTypeStreamer::write\<close> and \<open>EnumTypeStreamer::read\<close>.\<close>

definition EnumTypeStreamer_write :: "QMetaEnum \<Rightarrow> Bitstream \<Rightarrow> qint32 QVariant \<Rightarrow> Bitstream option" where
  "EnumTypeStreamer_write e out v =
     (case EnumTypeStreamer_getBits e of
        None \<Rightarrow> None
      | Some n \<Rightarrow> Bitstream_write out (int_bytes (toInt v)) n 0)"

definition EnumTypeStreamer_read :: "QMetaEnum \<Rightarrow> Bitstream \<Rightarrow> (qint32 QVariant \<times> Bitstream) option" where
  "EnumTypeStreamer_read e inp =
     (case EnumTypeStreamer_getBits e of
        None \<Rightarrow> None
      | Some n \<Rightarrow>
          (case Bitstream_read inp (int_bytes 0) n 0 of
             None \<Rightarrow> None
           | Some (in1, buf) \<Rightarrow> Some (QVariant_Value QMetaType_Int (bytes_int buf), in1)))"

text \<open>
  \<open>Bitstream::operator>(TypeReader&)\<close>, the case \<open>TypeReader::ENUM_TYPE\<close>.  The loop over the
  peer's keys carries the stream, \<open>mappings\<close>, \<open>matches\<close> and \<open>highestValue\<close>.
\<close>

fun read_enum_keys ::
  "QMetaEnum \<Rightarrow> nat \<Rightarrow> Bitstream \<times> IntHash \<times> bool \<times> qint32 \<Rightarrow>
   (Bitstream \<times> IntHash \<times> bool \<times> qint32) option" where
  "read_enum_keys metaEnum 0 st = Some st"
| "read_enum_keys metaEnum (Suc n) (s, mappings, matches, highestValue) =
     (case Bitstream_read_QByteArray s of
        None \<Rightarrow> None
      | Some (key, s1) \<Rightarrow>
          (case Bitstream_read_int s1 of
             None \<Rightarrow> None
           | Some (v, s2) \<Rightarrow>
               (let highestValue' = qMax v highestValue;
                    localValue = keyToValue metaEnum (string_of_QByteArray key);
                    mappings' = (if localValue \<noteq> - 1 then AList.update v localValue mappings
                                 else mappings);
                    matches' = (matches \<and> v = localValue)
                in read_enum_keys metaEnum n (s2, mappings', matches', highestValue'))))"

definition read_enum_metadata ::
  "(quint8 list \<Rightarrow> quint8 list) \<Rightarrow> MetadataType \<Rightarrow> QByteArray \<Rightarrow> LocalStreamer option \<Rightarrow>
   Bitstream \<Rightarrow> (TypeReader \<times> Bitstream) option" where
  "read_enum_metadata md5 metadataType name st s =
     (if metadataType = FULL_METADATA
      then case Bitstream_read_int s of
             None \<Rightarrow> None
           | Some (count, s1) \<Rightarrow>
               (let metaEnum = (case st of
                                  Some x \<Rightarrow> if getReaderType x = ENUM_TYPE then getMetaEnum x
                                            else QMetaEnum_invalid
                                | None \<Rightarrow> QMetaEnum_invalid)
                in case read_enum_keys metaEnum (nat (sint count))
                          (s1, [], sint count = int (keyCount metaEnum), 0) of
                     None \<Rightarrow> None
                   | Some (s2, mappings, matches, highestValue) \<Rightarrow>
                       if matches then Some (TypeReader_exact name st, s2)
                       else (case getBitsForHighestValue (sint highestValue) of
                               None \<Rightarrow> None
                             | Some n \<Rightarrow> Some (TypeReader_enum name st n mappings, s2)))
      else case Bitstream_read_int s of
             None \<Rightarrow> None
           | Some (n, s1) \<Rightarrow>
               (let localHashResult =
                      md5 (case st of
                             Some x \<Rightarrow> if getReaderType x = ENUM_TYPE
                                       then enum_hash_data (getMetaEnum x) else []
                           | None \<Rightarrow> [])
                in case Bitstream_read s1 (replicate (length localHashResult) 0)
                          (length localHashResult * BITS_IN_BYTE) 0 of
                     None \<Rightarrow> None
                   | Some (s2, remoteHashResult) \<Rightarrow>
                       if localHashResult = remoteHashResult
                       then Some (TypeReader_exact name st, s2)
                       else Some (TypeReader_enum name st (nat (sint n)) [], s2)))"

text \<open>
  \<open>TypeReader::read\<close> for a reader that matches exactly or is of type \<open>ENUM_TYPE\<close>; the other
  reader types are not modelled (\<open>None\<close>).  An exact match hands over to the streamer's
  \<open>read\<close>: \<open>TypeStreamer::read\<close> of the base class returns an invalid \<open>QVariant\<close> and reads
  nothing, and without a streamer the call dereferences a null pointer (\<open>None\<close>).
  \<open>QVariant(type, 0)\<close> is the default value of the type, the integer 0.
\<close>

definition TypeReader_read :: "TypeReader \<Rightarrow> Bitstream \<Rightarrow> (qint32 QVariant \<times> Bitstream) option" where
  "TypeReader_read rd inp =
     (if reader_exactMatch rd
      then case reader_streamer rd of
             Some (EnumTypeStreamer e) \<Rightarrow> EnumTypeStreamer_read e inp
           | Some (BaseTypeStreamer t) \<Rightarrow> Some (QVariant_Invalid, inp)
           | None \<Rightarrow> None
      else if reader_type rd = ENUM_TYPE
      then let object = (case reader_streamer rd of
                           Some x \<Rightarrow> QVariant_Value (getType x) 0
                         | None \<Rightarrow> QVariant_Invalid)
           in case Bitstream_read inp (int_bytes 0) (reader_bits rd) 0 of
                None \<Rightarrow> None
              | Some (in1, buf) \<Rightarrow>
                  Some (case reader_streamer rd of
                          Some x \<Rightarrow> setEnumValue x object (bytes_int buf) (reader_mappings rd)
                        | None \<Rightarrow> object, in1)
      else None)"

text \<open>Scenario S3: the peer's and the local declaration of the enum \<open>Color\<close>.\<close>

definition Color_peer :: QMetaEnum where
  "Color_peer = \<lparr>enumKeys = [(''RED'', 0), (''GREEN'', 1), (''BLUE'', 2)], enumIsFlag = False\<rparr>"

definition Color_local :: QMetaEnum where
  "Color_local = \<lparr>enumKeys = [(''RED'', 0), (''BLUE'', 1), (''GREEN'', 2)], enumIsFlag = False\<rparr>"

text \<open>\<open>MappedEnumTypeStreamer::read\<close>.\<close>

definition MappedEnumTypeStreamer_read ::
  "LocalStreamer option \<Rightarrow> nat \<Rightarrow> IntHash \<Rightarrow> Bitstream \<Rightarrow> (qint32 QVariant \<times> Bitstream) option" where
  "MappedEnumTypeStreamer_read baseStreamer n mappings inp =
     (let object = (case baseStreamer of
                      Some x \<Rightarrow> QVariant_Value (getType x) 0
                    | None \<Rightarrow> QVariant_Invalid)
      in case Bitstream_read inp (int_bytes 0) n 0 of
           None \<Rightarrow> None
         | Some (in1, buf) \<Rightarrow>
             Some (case baseStreamer of
                     Some x \<Rightarrow> setEnumValue x object (bytes_int buf) mappings
                   | None \<Rightarrow> object, in1))"

text \<open>
  Scenario S3 as an exchange: the peer writes the descriptor of its enum and one value and
  flushes; the local endpoint reads the descriptor against its own declaration and then the
  value.  The result is what the reader holds (\<open>_exactMatch\<close>, \<open>_bits\<close>, \<open>_mappings\<close>) and the
  decoded value.
\<close>

definition enum_exchange ::
  "(quint8 list \<Rightarrow> quint8 list) \<Rightarrow> MetadataType \<Rightarrow> QMetaEnum \<Rightarrow> QMetaEnum \<Rightarrow> qint32 \<Rightarrow>
   (bool \<times> nat \<times> IntHash \<times> qint32 QVariant) option" where
  "enum_exchange md5 metadataType peer local v =
     Option.bind (write_enum_metadata md5 metadataType peer (Bitstream_new [])) (\<lambda>w1.
     Option.bind (EnumTypeStreamer_write peer w1 (QVariant_Value QMetaType_Int v)) (\<lambda>w2.
     Option.bind (read_enum_metadata md5 metadataType (QByteArray_of_string ''Color'')
                    (Some (EnumTypeStreamer local)) (Bitstream_new (underlying (flush w2))))
       (\<lambda>(rd, r1).
     Option.bind (TypeReader_read rd r1) (\<lambda>(x, r2).
       Some (reader_exactMatch rd, reader_bits rd, reader_mappings rd, x)))))"

text \<open>
  A 16-byte digest to instantiate \<open>md5\<close> with: the first 16 bytes of the input, padded with
  zero bytes.
\<close>

definition first16 :: "quint8 list \<Rightarrow> quint8 list" where
  "first16 d = take 16 (d @ replicate 16 0)"

section \<open>Byte arrays and integers on the stream\<close>

lemma write_bytes:
  assumes "writer_inv s"
  shows "\<exists>s'. Bitstream_write s bs (length bs * 8) 0 = Some s' \<and> writer_inv s' \<and>
              written s' = written s @ buffer_bits bs"
proof -
  have z: "(0::nat) < 8" by simp
  have l: "8 * 0 + 0 + length bs * 8 \<le> 8 * length bs" by simp
  from write_loop_correct [OF assms z l] obtain s' where s':
    "write_loop s bs 0 (length bs * 8) 0 = Some s'" "writer_inv s'"
    "written s' = written s @ map (buf_bit bs) [0..<length bs * 8]"
    by auto
  then show ?thesis by (simp add: Bitstream_write_def buffer_bits_def mult.commute)
qed

lemma buffer_eqI:
  assumes "length a = length b" "\<And>k. k < 8 * length a \<Longrightarrow> buf_bit a k = buf_bit b k"
  shows "a = b"
proof (rule nth_equalityI)
  show "length a = length b" by (rule assms(1))
next
  fix i assume i: "i < length a"
  show "a ! i = b ! i"
  proof (rule bit_eqI)
    fix j
    show "bit (a ! i) j = bit (b ! i) j"
    proof (cases "j < 8")
      case True
      have "8 * i + j < 8 * length a" using i True by simp
      from assms(2) [OF this] show ?thesis using True by (simp add: buf_bit_def)
    next
      case False
      then show ?thesis by (auto dest: bit_imp_le_length)
    qed
  qed
qed

lemma read_bytes:
  assumes "position r < 8" "unread r = buffer_bits bs @ rest" "length buf = length bs"
  shows "\<exists>r'. Bitstream_read r buf (length bs * 8) 0 = Some (r', bs) \<and> position r' < 8 \<and>
              unread r' = rest"
proof -
  have z: "(0::nat) < 8" by simp
  have l: "8 * 0 + 0 + length bs * 8 \<le> 8 * length buf" using assms(3) by simp
  have a: "length bs * 8 \<le> length (unread r)" by (simp add: assms(2))
  from read_loop_correct [OF assms(1) z l a] obtain r' buf' where r':
    "read_loop r buf 0 (length bs * 8) 0 = Some (r', buf')"
    "position r' = (position r + length bs * 8) mod 8"
    "unread r' = drop (length bs * 8) (unread r)"
    "length buf' = length buf"
    "\<And>k. buf_bit buf' k = (if k < length bs * 8 then unread r ! k else buf_bit buf k)"
    by auto
  have "buf' = bs"
  proof (rule buffer_eqI)
    show "length buf' = length bs" using r'(4) assms(3) by simp
  next
    fix k assume "k < 8 * length buf'"
    then have k: "k < length bs * 8" using r'(4) assms(3) by simp
    then have "k < 8 * length bs" by simp
    then show "buf_bit buf' k = buf_bit bs k"
      using r'(5) [of k] k by (simp add: assms(2) nth_append)
  qed
  moreover have "position r' < 8" using r'(2) by simp
  ultimately show ?thesis using r'(1,3) by (simp add: Bitstream_read_def assms(2))
qed

lemma write_int_correct:
  assumes "writer_inv s"
  shows "\<exists>s'. Bitstream_write_int s v = Some s' \<and> writer_inv s' \<and>
              written s' = written s @ map (bit v) [0..<32]"
  using write_int_bits [OF assms, of 32 v] by (simp add: Bitstream_write_int_def)

lemma read_int_correct:
  assumes "position r < 8" "unread r = map (bit v) [0..<32] @ rest"
  shows "\<exists>r'. Bitstream_read_int r = Some (v, r') \<and> position r' < 8 \<and> unread r' = rest"
proof -
  have u: "unat v < 2 ^ 32" using unsigned_less [of v] by simp
  have n: "(32::nat) \<le> 32" by simp
  from read_int_bits [OF assms(1) n u assms(2)] show ?thesis
    by (auto simp add: Bitstream_read_int_def)
qed

lemma TypeReader_read_enum:
  "TypeReader_read (TypeReader_enum name st n m) inp = MappedEnumTypeStreamer_read st n m inp"
  by (simp add: TypeReader_read_def TypeReader_enum_def MappedEnumTypeStreamer_read_def Let_def
      split: option.splits)

lemma enum_exchange_full:
  "enum_exchange md5 FULL_METADATA Color_peer Color_local 1 =
     Some (False, 2, [(0, 0), (1, 2), (2, 1)], QVariant_Value QMetaType_Int 2)"
  by code_simp

lemma enum_exchange_hash:
  assumes len: "\<And>x. length (md5 x) = 16"
      and ne: "md5 (enum_hash_data Color_peer) \<noteq> md5 (enum_hash_data Color_local)"
  shows "enum_exchange md5 HASH_METADATA Color_peer Color_local 1 =
           Some (False, 2, [], QVariant_Value QMetaType_Int 0)"
proof -
  define hp where "hp = md5 (enum_hash_data Color_peer)"
  define hl where "hl = md5 (enum_hash_data Color_local)"
  define name where "name = QByteArray_of_string ''Color''"
  define st where "st = Some (EnumTypeStreamer Color_local)"
  have lhp: "length hp = 16" and lhl: "length hl = 16" by (simp_all add: hp_def hl_def len)
  have g: "EnumTypeStreamer_getBits Color_peer = Some 2" by code_simp
  from write_int_correct [OF writer_inv_new, of "[]" 2] obtain w1 where w1:
    "Bitstream_write_int (Bitstream_new []) 2 = Some w1" "writer_inv w1"
    "written w1 = map (bit (2::qint32)) [0..<32]"
    by (auto simp add: written_new buffer_bits_def)
  from write_bytes [OF w1(2), of hp] obtain w2 where w2:
    "Bitstream_write w1 hp (length hp * 8) 0 = Some w2" "writer_inv w2"
    "written w2 = written w1 @ buffer_bits hp"
    by auto
  have wm: "write_enum_metadata md5 HASH_METADATA Color_peer (Bitstream_new []) = Some w2"
    using w1(1) w2(1) by (simp add: write_enum_metadata_def g Let_def BITS_IN_BYTE_def hp_def)
  from write_int_bits [OF w2(2), of 2 1] obtain w3 where w3:
    "Bitstream_write w2 (int_bytes 1) 2 0 = Some w3" "writer_inv w3"
    "written w3 = written w2 @ map (bit (1::qint32)) [0..<2]"
    by auto
  have wv: "EnumTypeStreamer_write Color_peer w2 (QVariant_Value QMetaType_Int 1) = Some w3"
    using w3(1) by (simp add: EnumTypeStreamer_write_def g toInt_def)
  define pad where "pad = replicate ((8 - position w3) mod 8) False"
  define r0 where "r0 = Bitstream_new (underlying (flush w3))"
  have u0: "unread r0 = map (bit (2::qint32)) [0..<32] @
              (buffer_bits hp @ (map (bit (1::qint32)) [0..<2] @ pad))"
    unfolding r0_def unread_new flushed_bits [OF w3(2)] w3(3) w2(3) w1(3) pad_def by simp
  have p0: "position r0 < 8" by (simp add: r0_def position_new)
  from read_int_correct [OF p0 u0] obtain r1 where r1:
    "Bitstream_read_int r0 = Some (2, r1)" "position r1 < 8"
    "unread r1 = buffer_bits hp @ (map (bit (1::qint32)) [0..<2] @ pad)"
    by auto
  have lb: "length (replicate (length hl) (0::quint8)) = length hp" by (simp add: lhp lhl)
  from read_bytes [OF r1(2) r1(3) lb] obtain r2 where r2:
    "Bitstream_read r1 (replicate (length hl) 0) (length hp * 8) 0 = Some (r2, hp)"
    "position r2 < 8" "unread r2 = map (bit (1::qint32)) [0..<2] @ pad"
    by auto
  have r2': "Bitstream_read r1 (replicate (length hl) 0) (length hl * 8) 0 = Some (r2, hp)"
    using r2(1) by (simp add: lhp lhl)
  have s2: "nat (sint (2::qint32)) = 2" by simp
  have rm: "read_enum_metadata md5 HASH_METADATA name st r0 = Some (TypeReader_enum name st 2 [], r2)"
    using r1(1) r2' ne
    by (simp add: read_enum_metadata_def st_def Let_def BITS_IN_BYTE_def hl_def [symmetric]
        hp_def [symmetric] s2)
  have one: "unat (1::qint32) < 2 ^ 2" by simp
  have two: "(2::nat) \<le> 32" by simp
  from read_int_bits [OF r2(2) two one r2(3)] obtain r3 buf where r3:
    "Bitstream_read r2 (int_bytes 0) 2 0 = Some (r3, buf)" "bytes_int buf = 1"
    by auto
  have rv: "TypeReader_read (TypeReader_enum name st 2 []) r2 =
              Some (QVariant_Value QMetaType_Int 0, r3)"
    using r3 by (simp add: TypeReader_read_def TypeReader_enum_def st_def Color_local_def
        IntHash_value_def)
  show ?thesis
    unfolding enum_exchange_def
    using wm wv rm rv
    by (simp add: r0_def name_def st_def TypeReader_enum_def)
qed

section \<open>Claims about enum descriptors\<close>

text \<open>
  \<^bold>\<open>C7\<close> Scenario S3.  The peer declares \<open>Color\<close> as RED = 0, GREEN = 1, BLUE = 2, the local
  endpoint as RED = 0, BLUE = 1, GREEN = 2, and the peer sends GREEN, the value 1, in two bits.
  With full metadata the reader does not match exactly, builds the map from peer values to
  local values by name, 0 to 0, 1 to 2 and 2 to 1, and decodes the value 2, the local GREEN.
  With hash metadata the two declarations give different hash inputs; for every digest
  function of 16 bytes that tells the two inputs apart the reader does not match exactly,
  keeps the peer's width 2 and an empty map, and decodes the value 0.
\<close>

theorem enum_remap_S3:
  assumes "\<And>x. length (md5 x) = 16"
      and "md5 (enum_hash_data Color_peer) \<noteq> md5 (enum_hash_data Color_local)"
  shows "enum_exchange md5 FULL_METADATA Color_peer Color_local 1 =
           Some (False, 2, [(0, 0), (1, 2), (2, 1)], QVariant_Value QMetaType_Int 2) \<and>
         enum_hash_data Color_peer \<noteq> enum_hash_data Color_local \<and>
         enum_exchange md5 HASH_METADATA Color_peer Color_local 1 =
           Some (False, 2, [], QVariant_Value QMetaType_Int 0)"
proof -
  have "enum_hash_data Color_peer \<noteq> enum_hash_data Color_local" by code_simp
  then show ?thesis
    using enum_exchange_full [of md5] enum_exchange_hash [of md5, OF assms] by simp
qed

theorem enum_remap_S3_witness:
  "(\<forall>x. length (first16 x) = 16) \<and>
   first16 (enum_hash_data Color_peer) \<noteq> first16 (enum_hash_data Color_local) \<and>
   enum_exchange first16 FULL_METADATA Color_peer Color_local 1 =
     Some (False, 2, [(0, 0), (1, 2), (2, 1)], QVariant_Value QMetaType_Int 2) \<and>
   enum_exchange first16 HASH_METADATA Color_peer Color_local 1 =
     Some (False, 2, [], QVariant_Value QMetaType_Int 0)"
proof -
  have a: "\<And>x. length (first16 x) = 16" by (simp add: first16_def)
  have b: "first16 (enum_hash_data Color_peer) \<noteq> first16 (enum_hash_data Color_local)"
    by code_simp
  from enum_remap_S3 [of first16, OF a b] a b show ?thesis by simp
qed

section \<open>Set deltas\<close>

text \<open>
  The streamer operations the \<open>SET_TYPE\<close> reader calls on the object it rebuilds:
  \<open>insert(object, element)\<close> and \<open>remove(object, key)\<close>, which reports whether the key was
  there.
\<close>

record ('o, 'a) CollectionOps =
  streamer_insert :: "'o \<Rightarrow> 'a \<Rightarrow> 'o"
  streamer_remove :: "'o \<Rightarrow> 'a \<Rightarrow> bool \<times> 'o"

text \<open>\<open>TypeStreamer::insert\<close> (nothing by default) and \<open>TypeStreamer::remove\<close> (\<open>false\<close>).\<close>

definition TypeStreamer_ops :: "('o, 'a) CollectionOps" where
  "TypeStreamer_ops =
     \<lparr>streamer_insert = (\<lambda>object element. object),
      streamer_remove = (\<lambda>object key. (False, object))\<rparr>"

text \<open>
  Modelled from the spec: the \<open>insert\<close> and \<open>remove\<close> of the streamer of a set type, which
  \<open>Bitstream.h\<close> declares.  The object is a \<open>QSet\<close>; \<open>remove\<close> takes the key out and tells
  whether it was present, \<open>insert\<close> adds the element.
\<close>

definition QSet_ops :: "('a set, 'a) CollectionOps" where
  "QSet_ops =
     \<lparr>streamer_insert = (\<lambda>object element. insert element object),
      streamer_remove = (\<lambda>object key. (key \<in> object, object - {key}))\<rparr>"

text \<open>
  The loop of \<open>MappedSetTypeStreamer::readRawDelta\<close> and of the case \<open>SET_TYPE\<close> of
  \<open>TypeReader::readRawDelta\<close>: \<open>n\<close> passes are left, each reads one value and, with a
  streamer, removes it from the object or, when \<open>remove\<close> returns \<open>false\<close>, inserts it.
\<close>

fun readRawDelta_SET_loop ::
  "('o, 'a) CollectionOps option \<Rightarrow> (Bitstream \<Rightarrow> ('a \<times> Bitstream) option) \<Rightarrow> nat \<Rightarrow>
   'o \<times> Bitstream \<Rightarrow> ('o \<times> Bitstream) option" where
  "readRawDelta_SET_loop streamer valueReader_read 0 st = Some st"
| "readRawDelta_SET_loop streamer valueReader_read (Suc n) (object, inp) =
     (case valueReader_read inp of
        None \<Rightarrow> None
      | Some (v, in1) \<Rightarrow>
          readRawDelta_SET_loop streamer valueReader_read n
            (case streamer of
               None \<Rightarrow> object
             | Some ops \<Rightarrow>
                 (case streamer_remove ops object v of
                    (True, object') \<Rightarrow> object'
                  | (False, object') \<Rightarrow> streamer_insert ops object' v),
             in1))"

text \<open>
  \<open>MappedSetTypeStreamer::readRawDelta\<close>: the object starts as the reference; the count is an
  \<open>int\<close>, so a negative count gives no pass.
\<close>

definition MappedSetTypeStreamer_readRawDelta ::
  "('o, 'a) CollectionOps option \<Rightarrow> (Bitstream \<Rightarrow> ('a \<times> Bitstream) option) \<Rightarrow> Bitstream \<Rightarrow> 'o \<Rightarrow>
   ('o \<times> Bitstream) option" where
  "MappedSetTypeStreamer_readRawDelta baseStreamer valueStreamer_read inp reference =
     (case Bitstream_read_int inp of
        None \<Rightarrow> None
      | Some (addedOrRemoved, in1) \<Rightarrow>
          readRawDelta_SET_loop baseStreamer valueStreamer_read (nat (sint addedOrRemoved))
            (reference, in1))"

text \<open>\<open>TypeReader::readRawDelta\<close> for a reader of type \<open>SET_TYPE\<close> that does not match exactly.\<close>

definition TypeReader_readRawDelta_SET ::
  "('o, 'a) CollectionOps option \<Rightarrow> (Bitstream \<Rightarrow> ('a \<times> Bitstream) option) \<Rightarrow> Bitstream \<Rightarrow> 'o \<Rightarrow>
   ('o \<times> Bitstream) option" where
  "TypeReader_readRawDelta_SET streamer valueReader_read inp reference =
     (case Bitstream_read_int inp of
        None \<Rightarrow> None
      | Some (addedOrRemoved, in1) \<Rightarrow>
          readRawDelta_SET_loop streamer valueReader_read (nat (sint addedOrRemoved))
            (reference, in1))"

text \<open>
  Modelled from the spec: the writer of a set delta, \<open>Bitstream::writeRawDelta\<close> for a \<open>QSet\<close>,
  which \<open>Bitstream.h\<close> defines.  It emits the count of the symmetric difference of reference
  and value as an \<open>int\<close>, then each element of the symmetric difference raw; the elements
  are \<open>int\<close>s here, written with \<open>operator<<(int)\<close>.  The order in which a \<open>QSet\<close> hands out
  its elements is the parameter \<open>elements\<close>.
\<close>

fun write_elements :: "Bitstream \<Rightarrow> qint32 list \<Rightarrow> Bitstream option" where
  "write_elements out [] = Some out"
| "write_elements out (x # xs) =
     (case Bitstream_write_int out x of
        None \<Rightarrow> None
      | Some out1 \<Rightarrow> write_elements out1 xs)"

definition symmetric_difference :: "'a set \<Rightarrow> 'a set \<Rightarrow> 'a set" where
  "symmetric_difference reference v = (reference - v) \<union> (v - reference)"

definition Bitstream_writeRawDelta_QSet ::
  "(qint32 set \<Rightarrow> qint32 list) \<Rightarrow> Bitstream \<Rightarrow> qint32 set \<Rightarrow> qint32 set \<Rightarrow> Bitstream option" where
  "Bitstream_writeRawDelta_QSet elements out v reference =
     (let d = elements (symmetric_difference reference v)
      in case Bitstream_write_int out (of_nat (length d)) of
           None \<Rightarrow> None
         | Some out1 \<Rightarrow> write_elements out1 d)"

text \<open>What one pass of the reader's loop does to a set, and the 32 bits of an \<open>int\<close>.\<close>

definition toggle :: "'a \<Rightarrow> 'a set \<Rightarrow> 'a set" where
  "toggle x S = (if x \<in> S then S - {x} else insert x S)"

definition int_bits :: "qint32 \<Rightarrow> bool list" where
  "int_bits v = map (bit v) [0..<32]"

lemma sint_of_nat_small:
  assumes "n < 2 ^ 31"
  shows "nat (sint (of_nat n :: qint32)) = n"
proof -
  have "sint (of_nat n :: qint32) = signed_take_bit 31 (int n)"
    by (simp add: signed_of_nat)
  also have "\<dots> = int n"
    by (rule signed_take_bit_int_eq_self) (use assms in simp_all)
  finally show ?thesis by simp
qed

lemma write_elements_correct:
  "writer_inv s \<Longrightarrow>
   \<exists>s'. write_elements s ds = Some s' \<and> writer_inv s' \<and>
        written s' = written s @ concat (map int_bits ds)"
proof (induction ds arbitrary: s)
  case Nil
  then show ?case by simp
next
  case (Cons x xs)
  from write_int_correct [OF Cons.prems, of x] obtain s1 where s1:
    "Bitstream_write_int s x = Some s1" "writer_inv s1"
    "written s1 = written s @ int_bits x"
    by (auto simp add: int_bits_def)
  from Cons.IH [OF s1(2)] obtain s' where
    "write_elements s1 xs = Some s'" "writer_inv s'"
    "written s' = written s1 @ concat (map int_bits xs)"
    by auto
  then show ?case using s1 by simp
qed

lemma readRawDelta_SET_loop_correct:
  "position r < 8 \<Longrightarrow> unread r = concat (map int_bits ds) @ rest \<Longrightarrow>
   \<exists>r'. readRawDelta_SET_loop (Some QSet_ops) Bitstream_read_int (length ds) (object, r) =
          Some (fold toggle ds object, r') \<and>
        position r' < 8 \<and> unread r' = rest"
proof (induction ds arbitrary: r object)
  case Nil
  then show ?case by simp
next
  case (Cons x xs)
  have u: "unread r = map (bit x) [0..<32] @ (concat (map int_bits xs) @ rest)"
    using Cons.prems(2) unfolding int_bits_def by simp
  from read_int_correct [OF Cons.prems(1) u] obtain r1 where r1:
    "Bitstream_read_int r = Some (x, r1)" "position r1 < 8"
    "unread r1 = concat (map int_bits xs) @ rest"
    by auto
  from Cons.IH [OF r1(2) r1(3), of "toggle x object"] obtain r' where r':
    "readRawDelta_SET_loop (Some QSet_ops) Bitstream_read_int (length xs) (toggle x object, r1) =
       Some (fold toggle xs (toggle x object), r')"
    "position r' < 8" "unread r' = rest"
    by auto
  have t: "(case streamer_remove QSet_ops object x of
              (True, object') \<Rightarrow> object'
            | (False, object') \<Rightarrow> streamer_insert QSet_ops object' x) = toggle x object"
    by (simp add: QSet_ops_def toggle_def)
  show ?case using r1(1) r' by (simp add: t)
qed

lemma fold_toggle:
  "distinct ds \<Longrightarrow> fold toggle ds S = symmetric_difference S (set ds)"
proof (induction ds arbitrary: S)
  case Nil
  then show ?case by (simp add: symmetric_difference_def)
next
  case (Cons x xs)
  then have x: "x \<notin> set xs" and xs: "distinct xs" by simp_all
  have "fold toggle (x # xs) S = fold toggle xs (toggle x S)" by simp
  also have "\<dots> = symmetric_difference (toggle x S) (set xs)" by (rule Cons.IH [OF xs])
  also have "\<dots> = symmetric_difference S (set (x # xs))"
    using x by (auto simp add: symmetric_difference_def toggle_def)
  finally show ?case .
qed

lemma symmetric_difference_twice:
  "symmetric_difference R (symmetric_difference R V) = V"
  by (auto simp add: symmetric_difference_def)

lemma set_delta_exchange:
  assumes d: "distinct ds" and s: "set ds = symmetric_difference R V" and sz: "length ds < 2 ^ 31"
  shows "\<exists>w r. (case Bitstream_write_int (Bitstream_new []) (of_nat (length ds)) of
                   None \<Rightarrow> None
                 | Some out1 \<Rightarrow> write_elements out1 ds) = Some w \<and>
               written w = int_bits (of_nat (length ds)) @ concat (map int_bits ds) \<and>
               MappedSetTypeStreamer_readRawDelta (Some QSet_ops) Bitstream_read_int
                 (Bitstream_new (underlying (flush w))) R = Some (V, r)"
proof -
  from write_int_correct [OF writer_inv_new, of "[]" "of_nat (length ds)"] obtain w1 where w1:
    "Bitstream_write_int (Bitstream_new []) (of_nat (length ds)) = Some w1" "writer_inv w1"
    "written w1 = int_bits (of_nat (length ds))"
    by (auto simp add: written_new buffer_bits_def int_bits_def)
  from write_elements_correct [OF w1(2), of ds] obtain w where w:
    "write_elements w1 ds = Some w" "writer_inv w"
    "written w = written w1 @ concat (map int_bits ds)"
    by auto
  define pad where "pad = replicate ((8 - position w) mod 8) False"
  define r0 where "r0 = Bitstream_new (underlying (flush w))"
  have u0: "unread r0 = map (bit (of_nat (length ds) :: qint32)) [0..<32] @
              (concat (map int_bits ds) @ pad)"
    unfolding r0_def unread_new flushed_bits [OF w(2)] w(3) w1(3) pad_def int_bits_def by simp
  have p0: "position r0 < 8" by (simp add: r0_def position_new)
  from read_int_correct [OF p0 u0] obtain r1 where r1:
    "Bitstream_read_int r0 = Some (of_nat (length ds), r1)" "position r1 < 8"
    "unread r1 = concat (map int_bits ds) @ pad"
    by auto
  from readRawDelta_SET_loop_correct [OF r1(2) r1(3), of R] obtain r' where r':
    "readRawDelta_SET_loop (Some QSet_ops) Bitstream_read_int (length ds) (R, r1) =
       Some (fold toggle ds R, r')"
    by auto
  have "fold toggle ds R = V"
    by (simp add: fold_toggle [OF d] s symmetric_difference_twice)
  then have "MappedSetTypeStreamer_readRawDelta (Some QSet_ops) Bitstream_read_int r0 R = Some (V, r')"
    using r1(1) r' by (simp add: MappedSetTypeStreamer_readRawDelta_def sint_of_nat_small [OF sz])
  then show ?thesis using w1 w by (auto simp add: r0_def)
qed

text \<open>
  \<^bold>\<open>C6\<close> Set delta reconstruction.  For every reference set \<open>R\<close> and new set \<open>V\<close> whose
  symmetric difference the writer hands out element by element, each once, and fewer than
  \<open>2 ^ 31\<close> of them, the set delta is the count of the symmetric difference followed by its
  elements, and the reader, which starts from \<open>R\<close> and for each element removes it if it is
  present and inserts it otherwise, ends with \<open>V\<close>; so does the reader of a type that does not
  match exactly.
\<close>

theorem set_delta_reconstruction:
  assumes "distinct (elements (symmetric_difference R V))"
      and "set (elements (symmetric_difference R V)) = symmetric_difference R V"
      and "card (symmetric_difference R V) < 2 ^ 31"
  shows "\<exists>w r. Bitstream_writeRawDelta_QSet elements (Bitstream_new []) V R = Some w \<and>
               written w = int_bits (of_nat (card (symmetric_difference R V))) @
                           concat (map int_bits (elements (symmetric_difference R V))) \<and>
               MappedSetTypeStreamer_readRawDelta (Some QSet_ops) Bitstream_read_int
                 (Bitstream_new (underlying (flush w))) R = Some (V, r) \<and>
               TypeReader_readRawDelta_SET (Some QSet_ops) Bitstream_read_int
                 (Bitstream_new (underlying (flush w))) R = Some (V, r)"
proof -
  define ds where "ds = elements (symmetric_difference R V)"
  have c: "card (symmetric_difference R V) = length ds"
    using distinct_card [OF assms(1)] assms(2) by (simp add: ds_def)
  have d: "distinct ds" and s: "set ds = symmetric_difference R V" and sz: "length ds < 2 ^ 31"
    using assms c by (simp_all add: ds_def)
  from set_delta_exchange [OF d s sz] show ?thesis
    by (simp add: Bitstream_writeRawDelta_QSet_def Let_def ds_def [symmetric] c
        TypeReader_readRawDelta_SET_def MappedSetTypeStreamer_readRawDelta_def)
qed

lemma S5_bytes:
  "map_option (\<lambda>w. underlying (flush w))
     (Bitstream_writeRawDelta_QSet sorted_list_of_set (Bitstream_new []) {1, 3, 4} {1, 2, 3}) =
   Some [2, 0, 0, 0, 2, 0, 0, 0, 4, 0, 0, 0]"
  by code_simp

theorem set_delta_reconstruction_witness:
  "sorted_list_of_set (symmetric_difference {1, 2, 3} {1, 3, 4 :: qint32}) = [2, 4] \<and>
   card (symmetric_difference {1, 2, 3} {1, 3, 4 :: qint32}) = 2 \<and>
   (\<exists>w r. Bitstream_writeRawDelta_QSet sorted_list_of_set (Bitstream_new []) {1, 3, 4} {1, 2, 3} =
            Some w \<and>
          written w = int_bits 2 @ int_bits 2 @ int_bits 4 \<and>
          MappedSetTypeStreamer_readRawDelta (Some QSet_ops) Bitstream_read_int
            (Bitstream_new (underlying (flush w))) {1, 2, 3} = Some ({1, 3, 4}, r) \<and>
          TypeReader_readRawDelta_SET (Some QSet_ops) Bitstream_read_int
            (Bitstream_new (underlying (flush w))) {1, 2, 3} = Some ({1, 3, 4}, r))"
proof -
  have e: "sorted_list_of_set (symmetric_difference {1, 2, 3} {1, 3, 4 :: qint32}) = [2, 4]"
    by code_simp
  have s: "symmetric_difference {1, 2, 3} {1, 3, 4 :: qint32} = {2, 4}"
    by (auto simp add: symmetric_difference_def)
  have c: "card (symmetric_difference {1, 2, 3} {1, 3, 4 :: qint32}) = 2"
    by (simp add: s)
  have h1: "distinct (sorted_list_of_set (symmetric_difference {1, 2, 3} {1, 3, 4 :: qint32}))"
    by (simp add: e)
  have h2: "set (sorted_list_of_set (symmetric_difference {1, 2, 3} {1, 3, 4 :: qint32})) =
              symmetric_difference {1, 2, 3} {1, 3, 4}"
    by (simp add: e s)
  have h3: "card (symmetric_difference {1, 2, 3} {1, 3, 4 :: qint32}) < 2 ^ 31"
    by (simp add: c)
  from set_delta_reconstruction [of sorted_list_of_set "{1, 2, 3}" "{1, 3, 4}", OF h1 h2 h3]
  show ?thesis by (simp add: e c)
qed

end
